theory Spec2Isabelle
  imports Main "HOL-Library.Char_ord" "HOL-Library.List_Lexorder"
begin

section \<open>Python string primitives\<close>

text \<open>
  Python \<open>str\<close> values are modelled as \<open>string\<close>, a list of 8-bit characters read as
  ASCII code points. Whitespace is what \<open>str.isspace\<close>, \<open>str.strip\<close>, \<open>str.split\<close>
  and the regular-expression class \<open>\s\<close> accept in that range: the code points 9 to 13
  and 28 to 32. Case mapping is the ASCII one; characters beyond ASCII are left alone
  and are not whitespace (Python's Unicode tables are outside the model).
\<close>

definition nl :: string where
  "nl = [CHR 0x0A]"

definition py_isspace :: "char \<Rightarrow> bool" where
  "py_isspace c = (let n = (of_char c :: nat) in (9 \<le> n \<and> n \<le> 13) \<or> (28 \<le> n \<and> n \<le> 32))"

definition py_lower :: "char \<Rightarrow> char" where
  "py_lower c = (let n = (of_char c :: nat) in if 65 \<le> n \<and> n \<le> 90 then char_of (n + 32) else c)"

definition py_upper :: "char \<Rightarrow> char" where
  "py_upper c = (let n = (of_char c :: nat) in if 97 \<le> n \<and> n \<le> 122 then char_of (n - 32) else c)"

text \<open>\<open>s.strip(chars)\<close> with the stripped class given as a predicate.\<close>

definition strip_by :: "(char \<Rightarrow> bool) \<Rightarrow> string \<Rightarrow> string" where
  "strip_by P s = rev (dropWhile P (rev (dropWhile P s)))"

definition py_strip :: "string \<Rightarrow> string" where
  "py_strip s = strip_by py_isspace s"

text \<open>\<open>s.split()\<close>: the maximal runs of non-whitespace characters, in order. The first
  argument is the word being read, reversed.\<close>

fun split_acc :: "string \<Rightarrow> string \<Rightarrow> string list" where
  "split_acc w [] = (if w = [] then [] else [rev w])"
| "split_acc w (c # cs) =
     (if py_isspace c then (if w = [] then split_acc [] cs else rev w # split_acc [] cs)
      else split_acc (c # w) cs)"

definition py_split :: "string \<Rightarrow> string list" where
  "py_split s = split_acc [] s"

text \<open>\<open>sep.join(parts)\<close>.\<close>

fun py_join :: "string \<Rightarrow> string list \<Rightarrow> string" where
  "py_join sep [] = []"
| "py_join sep [p] = p"
| "py_join sep (p # q # ps) = p @ sep @ py_join sep (q # ps)"

text \<open>\<open>w.capitalize()\<close>: first character upper case, the others lower case.\<close>

fun capitalize :: "string \<Rightarrow> string" where
  "capitalize [] = []"
| "capitalize (c # cs) = py_upper c # map py_lower cs"

text \<open>\<open>s.startswith(p)\<close>.\<close>

fun startswith :: "string \<Rightarrow> string \<Rightarrow> bool" where
  "startswith s [] = True"
| "startswith [] (p # ps) = False"
| "startswith (c # s) (p # ps) = (c = p \<and> startswith s ps)"

text \<open>\<open>str(n)\<close> for a natural number: its decimal digits.\<close>

definition digit_char :: "nat \<Rightarrow> char" where
  "digit_char d = char_of (48 + d)"

fun py_str :: "nat \<Rightarrow> string" where
  "py_str n = (if n < 10 then [digit_char n] else py_str (n div 10) @ [digit_char (n mod 10)])"

declare py_str.simps [simp del]

section \<open>Tag Applier (scripts/apply_gallery_tags.py)\<close>

subsection \<open>Title derivation and card generation\<close>

text \<open>\<open>name.rsplit('.', 1)[0]\<close>: the text before the last dot, the whole name when it
  has no dot.\<close>

definition rsplit_dot_head :: "string \<Rightarrow> string" where
  "rsplit_dot_head name =
     (if CHR ''.'' \<in> set name
      then rev (tl (dropWhile (\<lambda>c. c \<noteq> CHR ''.'') (rev name)))
      else name)"

definition underscores_to_spaces :: "string \<Rightarrow> string" where
  "underscores_to_spaces s = map (\<lambda>c. if c = CHR ''_'' then CHR '' '' else c) s"

definition title_from_name :: "string \<Rightarrow> string" where
  "title_from_name name =
     (let base = rsplit_dot_head name;
          words = py_split (underscores_to_spaces base)
      in py_join '' '' (map capitalize words))"

definition spaces :: "nat \<Rightarrow> string" where
  "spaces n = replicate n (CHR '' '')"

text \<open>The card f-string of the source, line by line.\<close>

definition card_markup :: "string \<Rightarrow> string \<Rightarrow> string" where
  \<open>card_markup filename tag =
     (let title = title_from_name filename in
      nl @ spaces 12 @ ''<div class="gallery-card group" data-category="'' @ tag @ ''">''
      @ nl @ spaces 16 @ ''<div class="relative overflow-hidden rounded-3xl">''
      @ nl @ spaces 20 @ ''<img src="photos/'' @ filename
         @ ''" class="w-full object-cover" alt="'' @ title
         @ ''" onclick="openLightbox(this.src)" loading="lazy">''
      @ nl @ spaces 16 @ ''</div>''
      @ nl @ spaces 12 @ ''</div>'')\<close>

definition cards_html :: "(string \<times> string) list \<Rightarrow> string" where
  "cards_html rows = py_join nl (map (\<lambda>(filename, tag). card_markup filename tag) rows) @ nl"

subsection \<open>The bounding pattern\<close>

text \<open>
  The compiled pattern is
  \<^verbatim>\<open>(<div class="max-w-7xl mx-auto masonry-grid" id="masonryGrid">)([\s\S]*?)(\n\s*</div>\n\s*</main>)\<close>.
  Group 1 is a literal. Group 3 starts with a newline; each \<open>\s*\<close> in it is followed by
  the character \<open><\<close>, which is not whitespace, so at a given position group 3 matches
  in at most one way, with each \<open>\s*\<close> taking the whole run of whitespace.
  Group 2 is lazy: it ends at the first position from which group 3 matches.
  \<open>search\<close> returns the match at the leftmost start position that has one.
\<close>

definition OPEN_TAG :: string where
  \<open>OPEN_TAG = ''<div class="max-w-7xl mx-auto masonry-grid" id="masonryGrid">''\<close>

text \<open>Group 3 at the head of \<open>s\<close>: the matched text and what follows it.\<close>

definition match_close :: "string \<Rightarrow> (string \<times> string) option" where
  "match_close s =
     (case s of
        [] \<Rightarrow> None
      | c # r \<Rightarrow>
          if c \<noteq> CHR 0x0A then None
          else let ws1 = takeWhile py_isspace r; r1 = dropWhile py_isspace r in
            if \<not> startswith r1 ''</div>'' then None
            else (case drop 6 r1 of
                    [] \<Rightarrow> None
                  | d # r2 \<Rightarrow>
                      if d \<noteq> CHR 0x0A then None
                      else let ws2 = takeWhile py_isspace r2; r3 = dropWhile py_isspace r2 in
                        if \<not> startswith r3 ''</main>'' then None
                        else Some (nl @ ws1 @ ''</div>'' @ nl @ ws2 @ ''</main>'', drop 7 r3)))"

text \<open>Groups 2 and 3 after the opening tag: group 2, group 3 and the text after the match.\<close>

fun find_close :: "string \<Rightarrow> (string \<times> string \<times> string) option" where
  "find_close [] = None"
| "find_close (c # cs) =
     (case match_close (c # cs) of
        Some (g3, rest) \<Rightarrow> Some ([], g3, rest)
      | None \<Rightarrow>
          (case find_close cs of
             None \<Rightarrow> None
           | Some (g2, g3, rest) \<Rightarrow> Some (c # g2, g3, rest)))"

text \<open>A match object: \<open>text_before\<close> is \<open>html[:match.start()]\<close>, \<open>text_after\<close> is
  \<open>html[match.end():]\<close>.\<close>

record re_match =
  text_before :: string
  group1 :: string
  group2 :: string
  group3 :: string
  text_after :: string

fun pattern_search :: "string \<Rightarrow> re_match option" where
  "pattern_search [] = None"
| "pattern_search (c # cs) =
     (case (if startswith (c # cs) OPEN_TAG
            then find_close (drop (length OPEN_TAG) (c # cs)) else None) of
        Some (g2, g3, rest) \<Rightarrow>
          Some \<lparr>text_before = [], group1 = OPEN_TAG, group2 = g2, group3 = g3, text_after = rest\<rparr>
      | None \<Rightarrow>
          (case pattern_search cs of
             None \<Rightarrow> None
           | Some m \<Rightarrow> Some (m\<lparr>text_before := c # text_before m\<rparr>)))"

text \<open>The number of matches \<open>pattern.finditer\<close> would report: each later match is
  searched for in the text after the previous one. The fuel is the length of the text,
  which is enough because every match is longer than the opening tag.\<close>

fun count_from :: "nat \<Rightarrow> string \<Rightarrow> nat" where
  "count_from 0 s = 0"
| "count_from (Suc k) s =
     (case pattern_search s of None \<Rightarrow> 0 | Some m \<Rightarrow> Suc (count_from k (text_after m)))"

definition match_count :: "string \<Rightarrow> nat" where
  "match_count html = count_from (length html) html"

subsection \<open>The script\<close>

text \<open>
  The CSV file as \<open>csv.DictReader\<close> presents it: the header (\<open>None\<close> for an empty
  file) and, for each data row, the values \<open>row['filename']\<close> and \<open>row['tag']\<close>
  (\<open>None\<close> where the row is too short to have the column). The world the script runs
  in holds the two files it touches; a missing file is \<open>None\<close>.
\<close>

record csv_file =
  fieldnames :: "string list option"
  records :: "(string option \<times> string option) list"

record world =
  csv :: "csv_file option"
  html :: "string option"

datatype outcome =
    Completed
  | SystemExit string
  | Raised string

record run =
  printed :: "string list"
  result :: outcome
  world_after :: world

text \<open>The three fatal exits the specification names, by the message the source gives them.\<close>

definition ConfigError_headers :: outcome where
  "ConfigError_headers = SystemExit ''CSV must have headers: filename, tag''"

definition ValidationError :: outcome where
  "ValidationError = SystemExit ''Please fill all tags before applying.''"

definition TemplateError :: outcome where
  "TemplateError = SystemExit ''Could not find masonryGrid container in gallery.html''"

text \<open>The reading loop: both cells are stripped (a missing cell raises
  \<open>AttributeError\<close>) before the row with an empty filename is skipped.\<close>

fun read_rows :: "(string option \<times> string option) list \<Rightarrow> string + (string \<times> string) list" where
  "read_rows [] = Inr []"
| "read_rows ((None, t) # rest) = Inl ''AttributeError''"
| "read_rows ((Some f, None) # rest) = Inl ''AttributeError''"
| "read_rows ((Some f, Some t) # rest) =
     (let filename = py_strip f; tag = py_strip t in
      case read_rows rest of
        Inl e \<Rightarrow> Inl e
      | Inr rows \<Rightarrow> if filename = [] then Inr rows else Inr ((filename, tag) # rows))"

definition missing_tags :: "(string \<times> string) list \<Rightarrow> string list" where
  "missing_tags rows = map fst (filter (\<lambda>(name, tag). tag = []) rows)"

definition splice :: "re_match \<Rightarrow> (string \<times> string) list \<Rightarrow> string" where
  "splice m rows = text_before m @ (group1 m @ nl @ cards_html rows @ group3 m) @ text_after m"

definition stop :: "world \<Rightarrow> string list \<Rightarrow> outcome \<Rightarrow> run" where
  "stop w out r = \<lparr>printed = out, result = r, world_after = w\<rparr>"

definition apply_gallery_tags :: "world \<Rightarrow> run" where
  "apply_gallery_tags w =
     (case csv w of
        None \<Rightarrow> stop w [] (SystemExit ''gallery-tags.csv not found'')
      | Some f \<Rightarrow>
     (case fieldnames f of
        None \<Rightarrow> stop w [] (Raised ''TypeError'')
      | Some names \<Rightarrow>
          if ''filename'' \<notin> set names \<or> ''tag'' \<notin> set names
          then stop w [] ConfigError_headers
          else
     (case read_rows (records f) of
        Inl e \<Rightarrow> stop w [] (Raised e)
      | Inr rows \<Rightarrow>
          if rows = [] then stop w [] (SystemExit ''No rows found in CSV'')
          else if missing_tags rows \<noteq> []
          then stop w (''Missing tags for these files:''
                        # map (\<lambda>name. '' - '' @ name) (missing_tags rows))
                 ValidationError
          else
     (case html w of
        None \<Rightarrow> stop w [] (Raised ''FileNotFoundError'')
      | Some text \<Rightarrow>
     (case pattern_search text of
        None \<Rightarrow> stop w [] TemplateError
      | Some m \<Rightarrow>
          \<lparr>printed = [''Updated gallery.html with '' @ py_str (length rows) @ '' tagged photos''],
           result = Completed,
           world_after = w\<lparr>html := Some (splice m rows)\<rparr>\<rparr>)))))"

text \<open>The rows the script holds once the CSV has been read: \<open>None\<close> when it stops or
  raises before that (no file, no header, a required column absent, a short row).\<close>

definition csv_rows :: "world \<Rightarrow> (string \<times> string) list option" where
  "csv_rows w =
     (case csv w of
        None \<Rightarrow> None
      | Some f \<Rightarrow>
     (case fieldnames f of
        None \<Rightarrow> None
      | Some names \<Rightarrow>
          if ''filename'' \<notin> set names \<or> ''tag'' \<notin> set names then None
          else (case read_rows (records f) of Inl e \<Rightarrow> None | Inr rows \<Rightarrow> Some rows)))"

section \<open>Caption Renamer (scripts/rename_photos_by_caption.py)\<close>

subsection \<open>Caption sanitization\<close>

definition is_lower_alnum :: "char \<Rightarrow> bool" where
  "is_lower_alnum c =
     (let n = (of_char c :: nat) in (97 \<le> n \<and> n \<le> 122) \<or> (48 \<le> n \<and> n \<le> 57))"

text \<open>\<open>re.sub(r"[C]+", "_", text)\<close> for a character class \<open>C\<close>: every maximal run of
  characters of the class becomes one underscore.\<close>

function sub_runs :: "(char \<Rightarrow> bool) \<Rightarrow> string \<Rightarrow> string" where
  "sub_runs P [] = []"
| "sub_runs P (c # cs) =
     (if P c then CHR ''_'' # sub_runs P (dropWhile P cs) else c # sub_runs P cs)"
  by pat_completeness auto
termination
  by (relation "measure (\<lambda>(P, s). length s)") (auto simp: length_dropWhile_le less_Suc_eq_le)

definition sanitize_caption :: "string \<Rightarrow> string" where
  "sanitize_caption text =
     (let t1 = map py_lower (py_strip text);
          t2 = sub_runs (\<lambda>c. \<not> is_lower_alnum c) t1;
          t3 = strip_by (\<lambda>c. c = CHR ''_'') (sub_runs (\<lambda>c. c = CHR ''_'') t2)
      in if t3 = [] then ''image'' else t3)"

text \<open>
  Sanitization as the specification words it, for comparison with the source: lower-case
  the text, turn every run of characters other than \<open>a-z0-9\<close> into one underscore, trim
  the underscores at both ends, and fall back to \<open>image\<close> when nothing is left.
  \<open>collapse in_run\<close> reads the text once; \<open>in_run\<close> tells that the previous character
  belonged to a run that has already been given its underscore.
\<close>

fun collapse :: "bool \<Rightarrow> string \<Rightarrow> string" where
  "collapse in_run [] = []"
| "collapse in_run (c # cs) =
     (if is_lower_alnum c then c # collapse False cs
      else if in_run then collapse True cs
      else CHR ''_'' # collapse True cs)"

definition trim_underscores :: "string \<Rightarrow> string" where
  "trim_underscores s =
     rev (dropWhile (\<lambda>c. c = CHR ''_'') (rev (dropWhile (\<lambda>c. c = CHR ''_'') s)))"

definition sanitize_spec :: "string \<Rightarrow> string" where
  "sanitize_spec text =
     (let trimmed = trim_underscores (collapse False (map py_lower text))
      in if trimmed = [] then ''image'' else trimmed)"

subsection \<open>The directory\<close>

text \<open>
  The script works in one flat folder. The folder is an association list from entry names
  to nodes, read through \<open>map_of\<close>; a path \<open>os.path.join(folder, name)\<close> is
  represented by \<open>name\<close>, so two such paths are equal exactly when their names are.
  Entries are regular files (with their bytes) or directories; symbolic links and
  permissions are outside the model, so reading a regular file succeeds.
\<close>

datatype node = File string | Dir

type_synonym directory = "(string \<times> node) list"

definition path_exists :: "directory \<Rightarrow> string \<Rightarrow> bool" where
  "path_exists d name = (map_of d name \<noteq> None)"

definition isfile :: "directory \<Rightarrow> string \<Rightarrow> bool" where
  "isfile d name = (case map_of d name of Some (File bytes) \<Rightarrow> True | _ \<Rightarrow> False)"

definition listdir :: "directory \<Rightarrow> string list" where
  "listdir d = remdups (map fst d)"

text \<open>\<open>os.rename(src, dst)\<close> for an existing \<open>src\<close>; the destination the script passes
  never exists.\<close>

definition rename :: "directory \<Rightarrow> string \<Rightarrow> string \<Rightarrow> directory" where
  "rename d src dst =
     (case map_of d src of
        None \<Rightarrow> d
      | Some n \<Rightarrow> (dst, n) # filter (\<lambda>(k, v). k \<noteq> src \<and> k \<noteq> dst) d)"

subsection \<open>Unique destination\<close>

text \<open>The format \<open>{i:02d}\<close>: decimal, padded with zeros to two digits.\<close>

definition fmt_02d :: "nat \<Rightarrow> string" where
  "fmt_02d i = replicate (2 - length (py_str i)) (CHR ''0'') @ py_str i"

definition candidate :: "string \<Rightarrow> string \<Rightarrow> nat \<Rightarrow> string" where
  "candidate base ext i = base @ ''_'' @ fmt_02d i @ ext"

text \<open>\<open>digits_value\<close> reads a decimal numeral back; it is used to show that distinct
  counters give distinct candidates, which bounds the probing loop.\<close>

definition digits_value :: "string \<Rightarrow> nat" where
  "digits_value s = foldl (\<lambda>a c. 10 * a + (of_char c - 48)) 0 s"

lemma of_char_digit_char: "d < 10 \<Longrightarrow> (of_char (digit_char d) :: nat) = 48 + d"
  by (simp add: digit_char_def)

lemma digits_value_py_str: "digits_value (py_str n) = n"
proof (induction n rule: py_str.induct)
  case (1 n)
  show ?case
  proof (cases "n < 10")
    case True
    then show ?thesis
      by (subst py_str.simps) (simp add: digits_value_def of_char_digit_char)
  next
    case False
    with 1 have ih: "digits_value (py_str (n div 10)) = n div 10" by simp
    have "digits_value (py_str n) = 10 * digits_value (py_str (n div 10)) + n mod 10"
      using False
      by (subst py_str.simps) (simp add: digits_value_def of_char_digit_char)
    with ih show ?thesis by simp
  qed
qed

lemma digits_value_zeros: "digits_value (replicate k (CHR ''0'') @ s) = digits_value s"
  by (induction k) (simp_all add: digits_value_def)

lemma digits_value_fmt_02d: "digits_value (fmt_02d i) = i"
  by (simp add: fmt_02d_def digits_value_zeros digits_value_py_str)

lemma candidate_inj: "candidate base ext i = candidate base ext j \<Longrightarrow> i = j"
proof -
  assume "candidate base ext i = candidate base ext j"
  then have "fmt_02d i = fmt_02d j" by (simp add: candidate_def)
  then have "digits_value (fmt_02d i) = digits_value (fmt_02d j)" by simp
  then show "i = j" by (simp add: digits_value_fmt_02d)
qed

definition taken_from :: "directory \<Rightarrow> string \<Rightarrow> string \<Rightarrow> nat \<Rightarrow> nat set" where
  "taken_from d base ext i = {j. i \<le> j \<and> path_exists d (candidate base ext j)}"

lemma finite_taken_from: "finite (taken_from d base ext i)"
proof -
  have "taken_from d base ext i \<subseteq> candidate base ext -` fst ` set d"
    by (auto simp: taken_from_def path_exists_def map_of_eq_None_iff)
  moreover have "finite (candidate base ext -` fst ` set d)"
    by (rule finite_vimageI) (auto simp: inj_on_def dest: candidate_inj)
  ultimately show ?thesis by (rule finite_subset)
qed

lemma taken_from_Suc:
  "path_exists d (candidate base ext i) \<Longrightarrow>
   card (taken_from d base ext (Suc i)) < card (taken_from d base ext i)"
proof -
  assume ex: "path_exists d (candidate base ext i)"
  have "i \<in> taken_from d base ext i" and "i \<notin> taken_from d base ext (Suc i)"
    using ex by (simp_all add: taken_from_def)
  moreover have "taken_from d base ext (Suc i) \<subseteq> taken_from d base ext i"
    by (auto simp: taken_from_def)
  ultimately have "taken_from d base ext (Suc i) \<subset> taken_from d base ext i"
    by blast
  then show ?thesis
    by (rule psubset_card_mono [OF finite_taken_from])
qed

text \<open>The \<open>while True\<close> loop of \<open>unique_path\<close>, from counter \<open>i\<close>.\<close>

function probe :: "directory \<Rightarrow> string \<Rightarrow> string \<Rightarrow> nat \<Rightarrow> string" where
  "probe d base ext i =
     (if \<not> path_exists d (candidate base ext i) then candidate base ext i
      else probe d base ext (i + 1))"
  by pat_completeness auto
termination
  by (relation "measure (\<lambda>(d, base, ext, i). card (taken_from d base ext i))")
     (auto simp: taken_from_Suc)

declare probe.simps [simp del]

definition unique_path :: "directory \<Rightarrow> string \<Rightarrow> string \<Rightarrow> string" where
  "unique_path d base ext =
     (if \<not> path_exists d (base @ ext) then base @ ext else probe d base ext 2)"

subsection \<open>Enumeration\<close>

definition IMAGE_EXTS :: "string set" where
  "IMAGE_EXTS = {''.jpg'', ''.jpeg'', ''.png'', ''.webp'', ''.bmp'', ''.tiff'', ''.gif''}"

text \<open>\<open>os.path.splitext(name)[1]\<close> for a name without a path separator: the text from
  the last dot on, provided some character before that dot is not a dot.\<close>

definition splitext_ext :: "string \<Rightarrow> string" where
  "splitext_ext name =
     (if CHR ''.'' \<in> set name \<and> (\<exists>c \<in> set (rsplit_dot_head name). c \<noteq> CHR ''.'')
      then CHR ''.'' # rev (takeWhile (\<lambda>c. c \<noteq> CHR ''.'') (rev name))
      else [])"

text \<open>One turn of the generator \<open>iter_images\<close> at \<open>name\<close>: the extension it yields, or
  \<open>None\<close> when the entry is passed over. The path it yields with it is determined by the name.\<close>

definition image_ext :: "directory \<Rightarrow> string \<Rightarrow> string option" where
  "image_ext d name =
     (if startswith name ''.'' then None
      else if \<not> isfile d name then None
      else let ext = map py_lower (splitext_ext name) in
        if ext \<in> IMAGE_EXTS then Some ext else None)"

text \<open>The generator run to its end on a directory that does not change meanwhile.\<close>

definition iter_images :: "directory \<Rightarrow> (string \<times> string) list" where
  "iter_images d =
     List.map_filter (\<lambda>name. map_option (\<lambda>ext. (name, ext)) (image_ext d name))
       (sort (listdir d))"

subsection \<open>Captioning and the main loop\<close>

text \<open>
  The remote service is a parameter. For the request built from a file (its path and
  bytes) it either raises an exception, given by its message (\<open>Inl\<close>), or answers, and
  \<open>extract_output_text\<close> then finds a text in the response or \<open>None\<close> (\<open>Inr\<close>).
\<close>

type_synonym captioner = "string \<Rightarrow> string \<Rightarrow> string + string option"

definition caption_image :: "captioner \<Rightarrow> string \<Rightarrow> string \<Rightarrow> string + string" where
  "caption_image svc name bytes =
     (case svc name bytes of
        Inl msg \<Rightarrow> Inl msg
      | Inr None \<Rightarrow> Inl ''No text returned from model''
      | Inr (Some t) \<Rightarrow> if t = [] then Inl ''No text returned from model'' else Inr (py_strip t))"

record photo_state =
  files :: directory
  out :: "string list"
  err :: "string list"

text \<open>The body of the \<open>for\<close> loop of \<open>main\<close> for one yielded file. \<open>time.sleep\<close> has
  no effect on the state and is left out.\<close>

definition loop_body :: "bool \<Rightarrow> captioner \<Rightarrow> string \<Rightarrow> string \<Rightarrow> string \<Rightarrow> photo_state \<Rightarrow> photo_state" where
  "loop_body dry svc name bytes ext st =
     (case caption_image svc name bytes of
        Inl exc \<Rightarrow> st\<lparr>err := err st @ [''ERROR: '' @ name @ '': '' @ exc]\<rparr>
      | Inr caption \<Rightarrow>
          let base = sanitize_caption caption;
              new_name = unique_path (files st) base ext
          in if new_name = name
             then st\<lparr>out := out st @ [''SKIP: '' @ name @ '' (unchanged)'']\<rparr>
             else if dry
             then st\<lparr>out := out st @ [''DRY: '' @ name @ '' -> '' @ new_name]\<rparr>
             else st\<lparr>files := rename (files st) name new_name,
                      out := out st @ [''REN: '' @ name @ '' -> '' @ new_name]\<rparr>)"

definition file_bytes :: "directory \<Rightarrow> string \<Rightarrow> string" where
  "file_bytes d name = (case map_of d name of Some (File bytes) \<Rightarrow> bytes | _ \<Rightarrow> [])"

text \<open>One turn of the \<open>for\<close> loop at \<open>name\<close>. The generator is lazy, so the name is
  tested against the folder as it is when its turn comes; a yielded name is a regular
  file there, whose bytes \<open>build_data_url\<close> reads.\<close>

definition loop_step :: "bool \<Rightarrow> captioner \<Rightarrow> string \<Rightarrow> photo_state \<Rightarrow> photo_state" where
  "loop_step dry svc name st =
     (case image_ext (files st) name of
        None \<Rightarrow> st
      | Some ext \<Rightarrow> loop_body dry svc name (file_bytes (files st) name) ext st)"

text \<open>The loop over the sorted listing.\<close>

fun rename_loop :: "bool \<Rightarrow> captioner \<Rightarrow> string list \<Rightarrow> photo_state \<Rightarrow> photo_state" where
  "rename_loop dry svc [] st = st"
| "rename_loop dry svc (name # names) st = rename_loop dry svc names (loop_step dry svc name st)"

record invocation =
  dir_arg :: string
  env_var_arg :: string
  dry_run :: bool

record finished =
  exit_code :: nat
  stdout_lines :: "string list"
  stderr_lines :: "string list"
  folder_after :: "directory option"

text \<open>\<open>main\<close>: \<open>key\<close> is the value of the environment variable, \<open>folder\<close> the directory
  named by \<open>--dir\<close> (\<open>None\<close> when there is no such directory).\<close>

definition main :: "invocation \<Rightarrow> captioner \<Rightarrow> string option \<Rightarrow> directory option \<Rightarrow> finished" where
  "main args svc key folder =
     (if key = None \<or> key = Some []
      then \<lparr>exit_code = 1, stdout_lines = [],
            stderr_lines = [''Missing API key. Set $'' @ env_var_arg args @ ''.''],
            folder_after = folder\<rparr>
      else case folder of
        None \<Rightarrow>
          \<lparr>exit_code = 1, stdout_lines = [],
           stderr_lines = [''Folder not found: '' @ dir_arg args], folder_after = None\<rparr>
      | Some d \<Rightarrow>
          let st = rename_loop (dry_run args) svc (sort (listdir d))
                     \<lparr>files = d, out = [], err = []\<rparr>
          in \<lparr>exit_code = 0, stdout_lines = out st, stderr_lines = err st,
              folder_after = Some (files st)\<rparr>)"

section \<open>Properties of the Tag Applier\<close>

subsection \<open>Title derivation\<close>

lemma rsplit_dot_head_ext:
  "CHR ''.'' \<notin> set ext \<Longrightarrow> rsplit_dot_head (stem @ CHR ''.'' # ext) = stem"
proof -
  assume a: "CHR ''.'' \<notin> set ext"
  have "dropWhile (\<lambda>c. c \<noteq> CHR ''.'') (rev ext @ CHR ''.'' # rev stem) = CHR ''.'' # rev stem"
    using a by (subst dropWhile_append2) auto
  then show ?thesis by (simp add: rsplit_dot_head_def)
qed

lemma rsplit_dot_head_nodot:
  "CHR ''.'' \<notin> set name \<Longrightarrow> rsplit_dot_head name = name"
  by (simp add: rsplit_dot_head_def)

text \<open>
  Claim C7. The title is a function of the file name alone: the extension (the text from
  the last dot on) is dropped, underscores become spaces, and the words are capitalized
  and joined by single spaces; a name without a dot is taken whole. In particular
  \<open>sunset_beach.jpg\<close> gives \<open>Sunset Beach\<close>.
\<close>

theorem title_from_name_derivation:
  "title_from_name ''sunset_beach.jpg'' = ''Sunset Beach'' \<and>
   (CHR ''.'' \<notin> set ext \<longrightarrow>
      title_from_name (stem @ ''.'' @ ext)
        = py_join '' '' (map capitalize (py_split (underscores_to_spaces stem)))) \<and>
   (CHR ''.'' \<notin> set name \<longrightarrow>
      title_from_name name
        = py_join '' '' (map capitalize (py_split (underscores_to_spaces name))))"
proof (intro conjI impI)
  show "title_from_name ''sunset_beach.jpg'' = ''Sunset Beach''" by code_simp
next
  assume "CHR ''.'' \<notin> set ext"
  then show "title_from_name (stem @ ''.'' @ ext)
        = py_join '' '' (map capitalize (py_split (underscores_to_spaces stem)))"
    by (simp add: title_from_name_def rsplit_dot_head_ext)
next
  assume "CHR ''.'' \<notin> set name"
  then show "title_from_name name
        = py_join '' '' (map capitalize (py_split (underscores_to_spaces name)))"
    by (simp add: title_from_name_def rsplit_dot_head_nodot)
qed

theorem title_from_name_derivation_witness:
  "title_from_name (''my_photo'' @ ''.'' @ ''png'') = ''My Photo'' \<and>
   title_from_name ''READ_me'' = ''Read Me''"
proof -
  have a: "CHR ''.'' \<notin> set ''png''" by simp
  have b: "CHR ''.'' \<notin> set ''READ_me''" by simp
  have c: "py_join '' '' (map capitalize (py_split (underscores_to_spaces ''my_photo'')))
             = ''My Photo''" by code_simp
  have d: "py_join '' '' (map capitalize (py_split (underscores_to_spaces ''READ_me'')))
             = ''Read Me''" by code_simp
  from title_from_name_derivation [of "''png''" "''my_photo''" "''READ_me''"] a b c d
  show ?thesis by simp
qed

subsection \<open>The script\<close>

lemma apply_after_read:
  "csv_rows w = Some rows \<Longrightarrow>
   apply_gallery_tags w =
     (if rows = [] then stop w [] (SystemExit ''No rows found in CSV'')
      else if missing_tags rows \<noteq> []
      then stop w (''Missing tags for these files:''
                    # map (\<lambda>name. '' - '' @ name) (missing_tags rows))
             ValidationError
      else (case html w of
              None \<Rightarrow> stop w [] (Raised ''FileNotFoundError'')
            | Some text \<Rightarrow>
                (case pattern_search text of
                   None \<Rightarrow> stop w [] TemplateError
                 | Some m \<Rightarrow>
                     \<lparr>printed = [''Updated gallery.html with '' @ py_str (length rows)
                                   @ '' tagged photos''],
                      result = Completed,
                      world_after = w\<lparr>html := Some (splice m rows)\<rparr>\<rparr>)))"
proof -
  assume a: "csv_rows w = Some rows"
  then obtain f where f: "csv w = Some f"
    by (cases "csv w") (simp_all add: csv_rows_def)
  with a obtain names where names: "fieldnames f = Some names"
    by (cases "fieldnames f") (simp_all add: csv_rows_def)
  with a f have hdr: "\<not> (''filename'' \<notin> set names \<or> ''tag'' \<notin> set names)"
    by (auto simp: csv_rows_def split: if_splits)
  with a f names have rd: "read_rows (records f) = Inr rows"
    by (cases "read_rows (records f)") (simp_all add: csv_rows_def)
  show ?thesis
    unfolding apply_gallery_tags_def by (simp only: f names hdr rd option.case sum.case if_False)
qed

lemma read_rows_retained:
  "read_rows recs = Inr rows \<Longrightarrow>
   rows = [(py_strip a, py_strip b). (Some a, Some b) \<leftarrow> recs, py_strip a \<noteq> []]"
  by (induction recs arbitrary: rows rule: read_rows.induct)
     (auto simp: Let_def split: sum.splits if_splits)

lemma match_count_zero: "match_count text = 0 \<longleftrightarrow> pattern_search text = None"
  by (cases "text") (auto simp: match_count_def split: option.splits)

text \<open>
  The validation gate where the read completes (every row has both cells): when one of
  the rows has an empty tag, the script stops with the validation exit, leaves both files
  as they were, and prints, after the heading, one line for every retained row with an
  empty tag, in row order. The rows are the records with both cells stripped, those with
  an empty filename left out.
\<close>

lemma validation_gate:
  assumes "csv_rows w = Some rows" and "(name, []) \<in> set rows"
  shows "result (apply_gallery_tags w) = ValidationError \<and>
         world_after (apply_gallery_tags w) = w \<and>
         printed (apply_gallery_tags w)
           = ''Missing tags for these files:''
             # map (\<lambda>name. '' - '' @ name) (map fst (filter (\<lambda>(name, tag). tag = []) rows)) \<and>
         name \<in> set (map fst (filter (\<lambda>(name, tag). tag = []) rows)) \<and>
         (\<exists>f. csv w = Some f \<and>
            rows = [(py_strip a, py_strip b). (Some a, Some b) \<leftarrow> records f, py_strip a \<noteq> []])"
proof -
  from assms(2) have mem: "name \<in> set (missing_tags rows)"
    by (force simp: missing_tags_def)
  then have ne: "missing_tags rows \<noteq> []" and rne: "rows \<noteq> []" using assms(2) by auto
  from assms(1) obtain f where f: "csv w = Some f" "read_rows (records f) = Inr rows"
    by (auto simp: csv_rows_def split: option.splits sum.splits if_splits)
  from f(2) have "rows = [(py_strip a, py_strip b). (Some a, Some b) \<leftarrow> records f, py_strip a \<noteq> []]"
    by (rule read_rows_retained)
  with f(1) mem ne rne show ?thesis
    by (simp add: apply_after_read [OF assms(1)] stop_def missing_tags_def)
qed

lemma validation_gate_example:
  "result (apply_gallery_tags
      \<lparr>csv = Some \<lparr>fieldnames = Some [''filename'', ''tag''],
                    records = [(Some ''a.jpg'', Some ''beach''), (Some '' b.jpg'', Some ''  ''),
                               (Some '''', Some ''''), (Some ''c.jpg'', Some '''')]\<rparr>,
       html = Some ''<main></main>''\<rparr>) = ValidationError \<and>
   printed (apply_gallery_tags
      \<lparr>csv = Some \<lparr>fieldnames = Some [''filename'', ''tag''],
                    records = [(Some ''a.jpg'', Some ''beach''), (Some '' b.jpg'', Some ''  ''),
                               (Some '''', Some ''''), (Some ''c.jpg'', Some '''')]\<rparr>,
       html = Some ''<main></main>''\<rparr>)
     = [''Missing tags for these files:'', '' - b.jpg'', '' - c.jpg'']"
proof -
  let ?w = "\<lparr>csv = Some \<lparr>fieldnames = Some [''filename'', ''tag''],
                    records = [(Some ''a.jpg'', Some ''beach''), (Some '' b.jpg'', Some ''  ''),
                               (Some '''', Some ''''), (Some ''c.jpg'', Some '''')]\<rparr>,
       html = Some ''<main></main>''\<rparr>"
  let ?rows = "[(''a.jpg'', ''beach''), (''b.jpg'', []), (''c.jpg'', [])]"
  have r: "csv_rows ?w = Some ?rows" by code_simp
  have m: "(''b.jpg'', []) \<in> set ?rows" by simp
  from validation_gate [OF r m] show ?thesis by simp
qed

text \<open>
  Claim C3 at a concrete input: the header \<open>filename,tag\<close>, a row \<open>a.jpg\<close> with an
  empty tag, and a row \<open>b.jpg\<close> that has no tag cell. The first row is retained and its
  tag is empty after trimming, yet reading the second row raises \<open>AttributeError\<close>
  before the gate is reached: the run prints nothing, reports no filename, and leaves the
  files as they were.
\<close>

theorem validation_gate_short_row:
  "py_strip ''a.jpg'' \<noteq> [] \<and> py_strip '''' = [] \<and>
   read_rows [(Some ''a.jpg'', Some ''''), (Some ''b.jpg'', None)] = Inl ''AttributeError'' \<and>
   result (apply_gallery_tags
      \<lparr>csv = Some \<lparr>fieldnames = Some [''filename'', ''tag''],
                    records = [(Some ''a.jpg'', Some ''''), (Some ''b.jpg'', None)]\<rparr>,
       html = Some (OPEN_TAG @ nl @ ''</div>'' @ nl @ ''</main>'')\<rparr>) = Raised ''AttributeError'' \<and>
   printed (apply_gallery_tags
      \<lparr>csv = Some \<lparr>fieldnames = Some [''filename'', ''tag''],
                    records = [(Some ''a.jpg'', Some ''''), (Some ''b.jpg'', None)]\<rparr>,
       html = Some (OPEN_TAG @ nl @ ''</div>'' @ nl @ ''</main>'')\<rparr>) = [] \<and>
   world_after (apply_gallery_tags
      \<lparr>csv = Some \<lparr>fieldnames = Some [''filename'', ''tag''],
                    records = [(Some ''a.jpg'', Some ''''), (Some ''b.jpg'', None)]\<rparr>,
       html = Some (OPEN_TAG @ nl @ ''</div>'' @ nl @ ''</main>'')\<rparr>)
     = \<lparr>csv = Some \<lparr>fieldnames = Some [''filename'', ''tag''],
                    records = [(Some ''a.jpg'', Some ''''), (Some ''b.jpg'', None)]\<rparr>,
        html = Some (OPEN_TAG @ nl @ ''</div>'' @ nl @ ''</main>'')\<rparr>"
  by code_simp

theorem validation_gate_short_row_witness:
  "result (apply_gallery_tags
      \<lparr>csv = Some \<lparr>fieldnames = Some [''filename'', ''tag''],
                    records = [(Some ''a.jpg'', Some ''''), (Some ''b.jpg'', None)]\<rparr>,
       html = Some (OPEN_TAG @ nl @ ''</div>'' @ nl @ ''</main>'')\<rparr>) \<noteq> ValidationError \<and>
   '' - a.jpg'' \<notin> set (printed (apply_gallery_tags
      \<lparr>csv = Some \<lparr>fieldnames = Some [''filename'', ''tag''],
                    records = [(Some ''a.jpg'', Some ''''), (Some ''b.jpg'', None)]\<rparr>,
       html = Some (OPEN_TAG @ nl @ ''</div>'' @ nl @ ''</main>'')\<rparr>))"
  using validation_gate_short_row by (simp add: ValidationError_def)

text \<open>
  Claim C2, as stated, fails where the pattern matches more than once: the document below
  has two matches, and the script completes and rewrites it at the first one.
\<close>
theorem template_error_counterexample:
  "match_count (OPEN_TAG @ nl @ ''</div>'' @ nl @ ''</main>''
                @ OPEN_TAG @ nl @ ''</div>'' @ nl @ ''</main>'') = 2 \<and>
   result (apply_gallery_tags
      \<lparr>csv = Some \<lparr>fieldnames = Some [''filename'', ''tag''],
                    records = [(Some ''a.jpg'', Some ''beach'')]\<rparr>,
       html = Some (OPEN_TAG @ nl @ ''</div>'' @ nl @ ''</main>''
                    @ OPEN_TAG @ nl @ ''</div>'' @ nl @ ''</main>'')\<rparr>) = Completed \<and>
   html (world_after (apply_gallery_tags
      \<lparr>csv = Some \<lparr>fieldnames = Some [''filename'', ''tag''],
                    records = [(Some ''a.jpg'', Some ''beach'')]\<rparr>,
       html = Some (OPEN_TAG @ nl @ ''</div>'' @ nl @ ''</main>''
                    @ OPEN_TAG @ nl @ ''</div>'' @ nl @ ''</main>'')\<rparr>))
     = Some (OPEN_TAG @ nl @ cards_html [(''a.jpg'', ''beach'')] @ nl @ ''</div>'' @ nl @ ''</main>''
             @ OPEN_TAG @ nl @ ''</div>'' @ nl @ ''</main>'')"
  by code_simp

text \<open>
  Claim C2, amended. For a CSV that reads to a non-empty list of rows with every tag
  filled: when the pattern has no match the script stops with the template exit and
  leaves the files as they were; when it has at least one match the script completes
  and splices the cards into the first match.
\<close>

theorem template_error_no_match:
  assumes "csv_rows w = Some rows" and "rows \<noteq> []" and "missing_tags rows = []"
      and "html w = Some doc"
  shows "(match_count doc = 0 \<longrightarrow>
            result (apply_gallery_tags w) = TemplateError \<and> world_after (apply_gallery_tags w) = w) \<and>
         (match_count doc \<noteq> 0 \<longrightarrow>
            (\<exists>m. pattern_search doc = Some m \<and>
                 result (apply_gallery_tags w) = Completed \<and>
                 world_after (apply_gallery_tags w) = w\<lparr>html := Some (splice m rows)\<rparr>))"
proof (rule conjI; rule impI)
  assume "match_count doc = 0"
  then have "pattern_search doc = None" by (simp add: match_count_zero)
  with assms show "result (apply_gallery_tags w) = TemplateError \<and> world_after (apply_gallery_tags w) = w"
    by (simp add: apply_after_read [OF assms(1)] stop_def)
next
  assume "match_count doc \<noteq> 0"
  then obtain m where m: "pattern_search doc = Some m" by (auto simp: match_count_zero)
  with assms have "result (apply_gallery_tags w) = Completed \<and>
                 world_after (apply_gallery_tags w) = w\<lparr>html := Some (splice m rows)\<rparr>"
    by (simp add: apply_after_read [OF assms(1)])
  with m show "\<exists>m. pattern_search doc = Some m \<and>
                 result (apply_gallery_tags w) = Completed \<and>
                 world_after (apply_gallery_tags w) = w\<lparr>html := Some (splice m rows)\<rparr>"
    by blast
qed

theorem template_error_no_match_witness:
  "result (apply_gallery_tags
      \<lparr>csv = Some \<lparr>fieldnames = Some [''filename'', ''tag''],
                    records = [(Some ''a.jpg'', Some ''beach'')]\<rparr>,
       html = Some ''<main></main>''\<rparr>) = TemplateError \<and>
   world_after (apply_gallery_tags
      \<lparr>csv = Some \<lparr>fieldnames = Some [''filename'', ''tag''],
                    records = [(Some ''a.jpg'', Some ''beach'')]\<rparr>,
       html = Some ''<main></main>''\<rparr>)
     = \<lparr>csv = Some \<lparr>fieldnames = Some [''filename'', ''tag''],
                    records = [(Some ''a.jpg'', Some ''beach'')]\<rparr>,
       html = Some ''<main></main>''\<rparr>"
proof -
  let ?w = "\<lparr>csv = Some \<lparr>fieldnames = Some [''filename'', ''tag''],
                    records = [(Some ''a.jpg'', Some ''beach'')]\<rparr>,
       html = Some ''<main></main>''\<rparr>"
  have r: "csv_rows ?w = Some [(''a.jpg'', ''beach'')]" by code_simp
  have n: "[(''a.jpg'', ''beach'')] \<noteq> []" by simp
  have c: "missing_tags [(''a.jpg'', ''beach'')] = []" by code_simp
  have h: "html ?w = Some ''<main></main>''" by simp
  have z: "match_count ''<main></main>'' = 0" by code_simp
  from template_error_no_match [OF r n c h] z show ?thesis by simp
qed

subsection \<open>Running the script on its own output\<close>

lemma startswith_iff: "startswith s p \<longleftrightarrow> take (length p) s = p"
  by (induction s p rule: startswith.induct) auto

lemma startswith_extend:
  "length p \<le> length x \<Longrightarrow> startswith (x @ z) p = startswith x p"
  by (simp add: startswith_iff)

lemma not_space_lt: "\<not> py_isspace (CHR ''<'')"
  by (simp add: py_isspace_def)

lemma space_newline: "py_isspace (CHR 0x0A)"
  by (simp add: py_isspace_def)

lemma takeWhile_space_lt:
  "\<forall>c \<in> set ws. py_isspace c \<Longrightarrow> takeWhile py_isspace (ws @ CHR ''<'' # t) = ws"
  by (simp add: takeWhile_append2 not_space_lt)

lemma dropWhile_space_lt:
  "\<forall>c \<in> set ws. py_isspace c \<Longrightarrow> dropWhile py_isspace (ws @ CHR ''<'' # t) = CHR ''<'' # t"
  by (simp add: dropWhile_append2 not_space_lt)

text \<open>\<open>match_close\<close> accepts the texts that start with a word of group 3.\<close>

lemma match_close_intro:
  assumes "\<forall>c \<in> set ws1. py_isspace c" and "\<forall>c \<in> set ws2. py_isspace c"
  shows "match_close ((nl @ ws1 @ ''</div>'' @ nl @ ws2 @ ''</main>'') @ rest)
           = Some (nl @ ws1 @ ''</div>'' @ nl @ ws2 @ ''</main>'', rest)"
proof -
  let ?t2 = "ws2 @ CHR ''<'' # (''/main>'' @ rest)"
  let ?t1 = "ws1 @ CHR ''<'' # (''/div>'' @ CHR 0x0A # ?t2)"
  have a1: "takeWhile py_isspace ?t1 = ws1"
    by (rule takeWhile_space_lt [OF assms(1)])
  have b1: "dropWhile py_isspace ?t1 = CHR ''<'' # (''/div>'' @ CHR 0x0A # ?t2)"
    by (rule dropWhile_space_lt [OF assms(1)])
  have c1: "startswith (CHR ''<'' # (''/div>'' @ CHR 0x0A # ?t2)) ''</div>''" by simp
  have d1: "drop 6 (CHR ''<'' # (''/div>'' @ CHR 0x0A # ?t2)) = CHR 0x0A # ?t2" by simp
  have a2: "takeWhile py_isspace ?t2 = ws2"
    by (rule takeWhile_space_lt [OF assms(2)])
  have b2: "dropWhile py_isspace ?t2 = CHR ''<'' # (''/main>'' @ rest)"
    by (rule dropWhile_space_lt [OF assms(2)])
  have c2: "startswith (CHR ''<'' # (''/main>'' @ rest)) ''</main>''" by simp
  have d2: "drop 7 (CHR ''<'' # (''/main>'' @ rest)) = rest" by simp
  have m: "match_close (CHR 0x0A # ?t1)
        = Some (nl @ ws1 @ ''</div>'' @ nl @ ws2 @ ''</main>'', rest)"
    unfolding match_close_def
    by (simp only: list.case Let_def a1 b1 c1 d1 a2 b2 c2 d2 simp_thms if_False if_True)
  have eq: "(nl @ ws1 @ ''</div>'' @ nl @ ws2 @ ''</main>'') @ rest = CHR 0x0A # ?t1"
    by (simp add: nl_def)
  show ?thesis by (simp only: eq m)
qed

lemma startswith_split: "startswith s p \<Longrightarrow> s = p @ drop (length p) s"
  by (metis append_take_drop_id startswith_iff)

lemma match_close_elim:
  assumes "match_close s = Some (g3, rest)"
  shows "\<exists>ws1 ws2. (\<forall>c \<in> set ws1. py_isspace c) \<and> (\<forall>c \<in> set ws2. py_isspace c)
           \<and> g3 = nl @ ws1 @ ''</div>'' @ nl @ ws2 @ ''</main>'' \<and> s = g3 @ rest"
proof -
  from assms obtain r where s: "s = CHR 0x0A # r"
    by (cases s) (auto simp: match_close_def split: if_splits)
  let ?r1 = "dropWhile py_isspace r"
  from assms s have sw1: "startswith ?r1 ''</div>''"
    by (auto simp: match_close_def Let_def split: if_splits)
  from assms s sw1 obtain r2 where r2: "drop 6 ?r1 = CHR 0x0A # r2"
    by (cases "drop 6 ?r1") (auto simp: match_close_def Let_def split: if_splits)
  let ?r3 = "dropWhile py_isspace r2"
  from assms s sw1 r2 have sw2: "startswith ?r3 ''</main>''"
    by (auto simp: match_close_def Let_def split: if_splits)
  from assms s sw1 r2 sw2
  have g3: "g3 = nl @ takeWhile py_isspace r @ ''</div>'' @ nl @ takeWhile py_isspace r2 @ ''</main>''"
    and rest: "rest = drop 7 ?r3"
    by (auto simp: match_close_def Let_def)
  have l6: "length ''</div>'' = 6" and l7: "length ''</main>'' = 7" by simp_all
  have e1: "?r1 = ''</div>'' @ CHR 0x0A # r2"
    using startswith_split [OF sw1] unfolding l6 r2 .
  have e2: "?r3 = ''</main>'' @ rest"
    using startswith_split [OF sw2] unfolding l7 rest [symmetric] .
  have "r = takeWhile py_isspace r @ ?r1" by simp
  also note e1
  also have "r2 = takeWhile py_isspace r2 @ ?r3" by simp
  also note e2
  finally have "s = g3 @ rest" using s g3 by (simp add: nl_def)
  moreover have "\<forall>c \<in> set (takeWhile py_isspace r). py_isspace c"
    "\<forall>c \<in> set (takeWhile py_isspace r2). py_isspace c"
    by (auto dest: set_takeWhileD)
  ultimately show ?thesis using g3 by blast
qed

lemma match_close_newline:
  assumes "match_close s = Some (g3, rest)"
  shows "match_close (nl @ s) = Some (nl @ g3, rest)"
proof -
  from match_close_elim [OF assms] obtain ws1 ws2 where
    w: "\<forall>c \<in> set ws1. py_isspace c" "\<forall>c \<in> set ws2. py_isspace c"
       "g3 = nl @ ws1 @ ''</div>'' @ nl @ ws2 @ ''</main>''" "s = g3 @ rest"
    by blast
  from w(1) have w1: "\<forall>c \<in> set (nl @ ws1). py_isspace c"
    by (simp add: nl_def space_newline)
  from match_close_intro [OF w1 w(2), of rest] w(3,4) show ?thesis by simp
qed

lemma match_close_self:
  "match_close s = Some (g3, rest) \<Longrightarrow> s = g3 @ rest"
  using match_close_elim by blast

lemma find_close_split:
  "find_close s = Some (g2, g3, rest) \<Longrightarrow>
   s = g2 @ g3 @ rest \<and> match_close (g3 @ rest) = Some (g3, rest)"
proof (induction s arbitrary: g2)
  case Nil
  then show ?case by simp
next
  case (Cons c cs)
  show ?case
  proof (cases "match_close (c # cs)")
    case (Some p)
    with Cons.prems have p: "p = (g3, rest)" "g2 = []" by (auto split: prod.splits)
    with Some match_close_self [of "c # cs" g3 rest] show ?thesis by simp
  next
    case None
    with Cons.prems obtain g2' where g2': "find_close cs = Some (g2', g3, rest)" "g2 = c # g2'"
      by (auto split: option.splits)
    with Cons.IH [OF g2'(1)] show ?thesis by simp
  qed
qed

lemma find_close_later:
  assumes "match_close v = Some (g3', rest')"
  shows "\<exists>g2 g3 rest. find_close (u @ v) = Some (g2, g3, rest) \<and> length g2 \<le> length u"
proof (induction u)
  case Nil
  from assms obtain c cs where v: "v = c # cs" by (cases v) (auto simp: match_close_def)
  with assms show ?case by simp
next
  case (Cons c u)
  then obtain g2 g3 rest where ih: "find_close (u @ v) = Some (g2, g3, rest)" "length g2 \<le> length u"
    by blast
  show ?case
  proof (cases "match_close (c # u @ v)")
    case None
    with ih show ?thesis by simp
  next
    case (Some p)
    then show ?thesis by (cases p) simp
  qed
qed

lemma OPEN_TAG_nonempty: "OPEN_TAG \<noteq> []"
  by (simp add: OPEN_TAG_def)

lemma pattern_search_at_open:
  assumes "find_close z = Some (g2, g3, rest)"
  shows "pattern_search (OPEN_TAG @ z)
           = Some \<lparr>text_before = [], group1 = OPEN_TAG, group2 = g2, group3 = g3, text_after = rest\<rparr>"
proof (cases "OPEN_TAG @ z")
  case Nil
  with OPEN_TAG_nonempty show ?thesis by simp
next
  case (Cons c cs)
  have sw: "startswith (c # cs) OPEN_TAG"
    unfolding Cons [symmetric] by (simp add: startswith_iff)
  have dr: "drop (length OPEN_TAG) (c # cs) = z"
    unfolding Cons [symmetric] by simp
  show ?thesis
    unfolding Cons
    by (simp only: pattern_search.simps sw dr if_True assms option.case prod.case)
qed

lemma pattern_search_split:
  "pattern_search doc = Some m \<Longrightarrow>
   doc = text_before m @ OPEN_TAG @ group2 m @ group3 m @ text_after m \<and>
   group1 m = OPEN_TAG \<and>
   match_close (group3 m @ text_after m) = Some (group3 m, text_after m)"
proof (induction doc arbitrary: m)
  case Nil
  then show ?case by simp
next
  case (Cons c cs)
  let ?here = "if startswith (c # cs) OPEN_TAG
               then find_close (drop (length OPEN_TAG) (c # cs)) else None"
  show ?case
  proof (cases ?here)
    case (Some p)
    obtain g2 g3 rest where p: "p = (g2, g3, rest)" by (cases p)
    from Some p have sw: "startswith (c # cs) OPEN_TAG"
      and fc: "find_close (drop (length OPEN_TAG) (c # cs)) = Some (g2, g3, rest)"
      by (auto split: if_splits)
    from Some p Cons.prems
    have m: "m = \<lparr>text_before = [], group1 = OPEN_TAG, group2 = g2, group3 = g3, text_after = rest\<rparr>"
      by (simp del: startswith.simps)
    from startswith_split [OF sw] find_close_split [OF fc]
    have "c # cs = OPEN_TAG @ g2 @ g3 @ rest" by simp
    with m find_close_split [OF fc] show ?thesis by simp
  next
    case None
    with Cons.prems obtain m' where m': "pattern_search cs = Some m'"
      "m = m'\<lparr>text_before := c # text_before m'\<rparr>"
      by (auto simp del: startswith.simps split: option.splits)
    from Cons.IH [OF m'(1)] m'(2) show ?thesis by simp
  qed
qed

lemma pattern_search_same_start:
  assumes "pattern_search doc = Some m" and "find_close z = Some (g2, g3, rest)"
  shows "pattern_search (text_before m @ OPEN_TAG @ z)
           = Some \<lparr>text_before = text_before m, group1 = OPEN_TAG,
                   group2 = g2, group3 = g3, text_after = rest\<rparr>"
  using assms(1)
proof (induction doc arbitrary: m)
  case Nil
  then show ?case by simp
next
  case (Cons c cs)
  let ?here = "if startswith (c # cs) OPEN_TAG
               then find_close (drop (length OPEN_TAG) (c # cs)) else None"
  show ?case
  proof (cases ?here)
    case (Some p)
    obtain a b r where p: "p = (a, b, r)" by (cases p)
    from Some p Cons.prems have "text_before m = []" by (auto simp del: startswith.simps)
    with pattern_search_at_open [OF assms(2)] show ?thesis by simp
  next
    case None
    with Cons.prems obtain m' where m': "pattern_search cs = Some m'"
      "m = m'\<lparr>text_before := c # text_before m'\<rparr>"
      by (auto simp del: startswith.simps split: option.splits)
    from pattern_search_split [OF m'(1)] have
      cs: "cs = text_before m' @ OPEN_TAG @ group2 m' @ group3 m' @ text_after m'"
      and mc: "match_close (group3 m' @ text_after m') = Some (group3 m', text_after m')"
      by simp_all
    let ?x = "c # text_before m' @ OPEN_TAG"
    have len: "length OPEN_TAG \<le> length ?x" by simp
    have nsw: "\<not> startswith (c # cs) OPEN_TAG"
    proof
      assume sw: "startswith (c # cs) OPEN_TAG"
      have "c # cs = (?x @ group2 m') @ (group3 m' @ text_after m')"
        by (subst cs) simp
      then have "drop (length OPEN_TAG) (c # cs)
          = drop (length OPEN_TAG) (?x @ group2 m') @ (group3 m' @ text_after m')"
        by (simp only: drop_append) simp
      with find_close_later [OF mc, of "drop (length OPEN_TAG) (?x @ group2 m')"]
      have "find_close (drop (length OPEN_TAG) (c # cs)) \<noteq> None" by auto
      with sw None show False by (simp del: startswith.simps)
    qed
    have "c # cs = ?x @ (group2 m' @ group3 m' @ text_after m')" by (subst cs) simp
    with nsw have "\<not> startswith ?x OPEN_TAG"
      using startswith_extend [OF len, of "group2 m' @ group3 m' @ text_after m'"] by simp
    then have nsw': "\<not> startswith (?x @ z) OPEN_TAG"
      using startswith_extend [OF len, of z] by simp
    have "pattern_search ((c # text_before m') @ OPEN_TAG @ z)
        = (case pattern_search (text_before m' @ OPEN_TAG @ z) of None \<Rightarrow> None
           | Some k \<Rightarrow> Some (k\<lparr>text_before := c # text_before k\<rparr>))"
      using nsw' by (simp del: startswith.simps)
    with Cons.IH [OF m'(1)] m'(2) show ?thesis by simp
  qed
qed

lemma csv_rows_html_update: "csv_rows (w\<lparr>html := h\<rparr>) = csv_rows w"
  by (simp add: csv_rows_def)

lemma splice_again:
  assumes "pattern_search doc = Some m"
  shows "\<exists>m2. pattern_search (splice m rows) = Some m2 \<and> text_before m2 = text_before m
            \<and> length (splice m rows) < length (splice m2 rows)"
proof -
  from pattern_search_split [OF assms] have
    g1: "group1 m = OPEN_TAG"
    and mc: "match_close (group3 m @ text_after m) = Some (group3 m, text_after m)"
    by simp_all
  let ?X = "py_join nl (map (\<lambda>(filename, tag). card_markup filename tag) rows)"
  let ?z = "(nl @ ?X) @ (nl @ group3 m @ text_after m)"
  have sp: "splice m rows = text_before m @ OPEN_TAG @ ?z"
    by (simp add: splice_def g1 cards_html_def)
  from match_close_newline [OF mc]
  have mc': "match_close (nl @ group3 m @ text_after m) = Some (nl @ group3 m, text_after m)"
    by simp
  from find_close_later [OF mc', of "nl @ ?X"] obtain g2 g3 rest where
    fc: "find_close ?z = Some (g2, g3, rest)" and le: "length g2 \<le> length (nl @ ?X)"
    by blast
  from find_close_split [OF fc] have z: "?z = g2 @ g3 @ rest" by simp
  let ?m2 = "\<lparr>text_before = text_before m, group1 = OPEN_TAG,
              group2 = g2, group3 = g3, text_after = rest\<rparr>"
  from pattern_search_same_start [OF assms fc]
  have ps: "pattern_search (splice m rows) = Some ?m2" by (simp only: sp)
  have l1: "length (splice m rows) = length (text_before m) + length OPEN_TAG + length ?z"
    by (simp only: sp length_append)
  have l2: "length (splice ?m2 rows)
      = length (text_before m) + length OPEN_TAG + (length (nl @ ?X) + length nl)
        + (length g3 + length rest)"
    by (simp add: splice_def cards_html_def)
  from z have "length ?z = length g2 + (length g3 + length rest)"
    by (metis length_append)
  with le l1 l2 have "length (splice m rows) < length (splice ?m2 rows)"
    by (simp add: nl_def)
  with ps show ?thesis by (intro exI [of _ ?m2]) simp
qed

text \<open>
  Whenever a run completes, a second run with the same CSV on the document just written
  completes too and writes a strictly longer document: the match starts at the same
  place, and group 2 ends no later than the newline that closes the generated cards.
\<close>

lemma second_run_grows:
  assumes "csv_rows w = Some rows" and "rows \<noteq> []" and "missing_tags rows = []"
      and "html w = Some doc" and "pattern_search doc = Some m"
  shows "\<exists>d1 d2. html (world_after (apply_gallery_tags w)) = Some d1
           \<and> result (apply_gallery_tags (world_after (apply_gallery_tags w))) = Completed
           \<and> html (world_after (apply_gallery_tags (world_after (apply_gallery_tags w)))) = Some d2
           \<and> length d1 < length d2"
proof -
  let ?w1 = "w\<lparr>html := Some (splice m rows)\<rparr>"
  from assms have w1: "world_after (apply_gallery_tags w) = ?w1"
    by (simp add: apply_after_read [OF assms(1)])
  from splice_again [OF assms(5), of rows] obtain m2 where
    m2: "pattern_search (splice m rows) = Some m2"
        "length (splice m rows) < length (splice m2 rows)"
    by blast
  have r1: "csv_rows ?w1 = Some rows" using assms(1) by (simp add: csv_rows_html_update)
  from assms(2,3) m2(1)
  have run2: "result (apply_gallery_tags ?w1) = Completed"
       "html (world_after (apply_gallery_tags ?w1)) = Some (splice m2 rows)"
    by (simp_all add: apply_after_read [OF r1])
  with w1 m2(2) show ?thesis by simp
qed

text \<open>
  Claim C1 at a concrete input: one row \<open>(a.jpg, beach)\<close> and the smallest template that
  matches. Both runs complete; the second run is given the output of the first and
  writes a document with one more newline before the closing sequence, because the
  newline that ends the generated cards is matched by group 3 on the second run.
\<close>
theorem second_run_not_identical:
  "result (apply_gallery_tags
      \<lparr>csv = Some \<lparr>fieldnames = Some [''filename'', ''tag''],
                    records = [(Some ''a.jpg'', Some ''beach'')]\<rparr>,
       html = Some (OPEN_TAG @ nl @ ''</div>'' @ nl @ ''</main>'')\<rparr>) = Completed \<and>
   html (world_after (apply_gallery_tags
      \<lparr>csv = Some \<lparr>fieldnames = Some [''filename'', ''tag''],
                    records = [(Some ''a.jpg'', Some ''beach'')]\<rparr>,
       html = Some (OPEN_TAG @ nl @ ''</div>'' @ nl @ ''</main>'')\<rparr>))
     = Some (OPEN_TAG @ nl @ cards_html [(''a.jpg'', ''beach'')] @ nl @ ''</div>'' @ nl @ ''</main>'') \<and>
   result (apply_gallery_tags
      \<lparr>csv = Some \<lparr>fieldnames = Some [''filename'', ''tag''],
                    records = [(Some ''a.jpg'', Some ''beach'')]\<rparr>,
       html = Some (OPEN_TAG @ nl @ cards_html [(''a.jpg'', ''beach'')]
                    @ nl @ ''</div>'' @ nl @ ''</main>'')\<rparr>) = Completed \<and>
   html (world_after (apply_gallery_tags
      \<lparr>csv = Some \<lparr>fieldnames = Some [''filename'', ''tag''],
                    records = [(Some ''a.jpg'', Some ''beach'')]\<rparr>,
       html = Some (OPEN_TAG @ nl @ cards_html [(''a.jpg'', ''beach'')]
                    @ nl @ ''</div>'' @ nl @ ''</main>'')\<rparr>))
     = Some (OPEN_TAG @ nl @ cards_html [(''a.jpg'', ''beach'')]
             @ nl @ nl @ ''</div>'' @ nl @ ''</main>'') \<and>
   OPEN_TAG @ nl @ cards_html [(''a.jpg'', ''beach'')] @ nl @ nl @ ''</div>'' @ nl @ ''</main>''
     \<noteq> OPEN_TAG @ nl @ cards_html [(''a.jpg'', ''beach'')] @ nl @ ''</div>'' @ nl @ ''</main>''"
  by code_simp

theorem second_run_not_identical_witness:
  "html (world_after (apply_gallery_tags (world_after (apply_gallery_tags
      \<lparr>csv = Some \<lparr>fieldnames = Some [''filename'', ''tag''],
                    records = [(Some ''a.jpg'', Some ''beach'')]\<rparr>,
       html = Some (OPEN_TAG @ nl @ ''</div>'' @ nl @ ''</main>'')\<rparr>))))
   \<noteq> html (world_after (apply_gallery_tags
      \<lparr>csv = Some \<lparr>fieldnames = Some [''filename'', ''tag''],
                    records = [(Some ''a.jpg'', Some ''beach'')]\<rparr>,
       html = Some (OPEN_TAG @ nl @ ''</div>'' @ nl @ ''</main>'')\<rparr>))"
proof -
  let ?csv = "Some \<lparr>fieldnames = Some [''filename'', ''tag''],
                    records = [(Some ''a.jpg'', Some ''beach'')]\<rparr>"
  let ?w0 = "\<lparr>csv = ?csv, html = Some (OPEN_TAG @ nl @ ''</div>'' @ nl @ ''</main>'')\<rparr>"
  have w1: "world_after (apply_gallery_tags ?w0)
     = \<lparr>csv = ?csv, html = Some (OPEN_TAG @ nl @ cards_html [(''a.jpg'', ''beach'')]
                                   @ nl @ ''</div>'' @ nl @ ''</main>'')\<rparr>"
    by code_simp
  from second_run_not_identical show ?thesis
    unfolding w1 by simp
qed

section \<open>Properties of the Caption Renamer\<close>

subsection \<open>Caption sanitization\<close>

lemma not_alnum_underscore: "\<not> is_lower_alnum (CHR ''_'')"
  by (simp add: is_lower_alnum_def)

lemma space_not_alnum: "py_isspace c \<Longrightarrow> \<not> is_lower_alnum (py_lower c)"
  by (auto simp: py_isspace_def py_lower_def is_lower_alnum_def Let_def)

lemma sub_runs_head:
  "N (CHR ''_'') \<Longrightarrow> ys = [] \<or> \<not> N (hd ys) \<Longrightarrow>
   dropWhile (\<lambda>c. c = CHR ''_'') (sub_runs N ys) = sub_runs N ys"
  by (cases ys) auto

lemma dropWhile_head: "dropWhile N cs = [] \<or> \<not> N (hd (dropWhile N cs))"
  by (metis hd_dropWhile)

lemma lstrip_sub_runs:
  assumes "N (CHR ''_'')"
  shows "dropWhile (\<lambda>c. c = CHR ''_'') (sub_runs N s) = sub_runs N (dropWhile N s)"
proof (cases s)
  case Nil
  then show ?thesis by simp
next
  case (Cons c cs)
  show ?thesis
  proof (cases "N c")
    case True
    from sub_runs_head [where N = N and ys = "dropWhile N cs"] assms dropWhile_head [of N cs]
    have "dropWhile (\<lambda>c. c = CHR ''_'') (sub_runs N (dropWhile N cs)) = sub_runs N (dropWhile N cs)"
      by blast
    with True Cons show ?thesis by simp
  next
    case False
    with assms have "c \<noteq> CHR ''_''" by auto
    with False Cons show ?thesis by simp
  qed
qed

lemma sub_runs_idem:
  "N (CHR ''_'') \<Longrightarrow> sub_runs (\<lambda>c. c = CHR ''_'') (sub_runs N s) = sub_runs N s"
proof (induction N s rule: sub_runs.induct)
  case (1 P)
  show ?case by simp
next
  case (2 P c cs)
  show ?case
  proof (cases "P c")
    case True
    from sub_runs_head [where N = P and ys = "dropWhile P cs"] "2.prems" dropWhile_head [of P cs]
    have "dropWhile (\<lambda>c. c = CHR ''_'') (sub_runs P (dropWhile P cs)) = sub_runs P (dropWhile P cs)"
      by blast
    with True 2 show ?thesis by simp
  next
    case False
    with "2.prems" have "c \<noteq> CHR ''_''" by auto
    with False 2 show ?thesis by simp
  qed
qed

lemma rstrip_Cons:
  "rev (dropWhile P (rev (a # X)))
     = (if rev (dropWhile P (rev X)) = [] then (if P a then [] else [a])
        else a # rev (dropWhile P (rev X)))"
  by (auto simp: dropWhile_append)

lemma sub_runs_all: "s \<noteq> [] \<Longrightarrow> \<forall>c \<in> set s. N c \<Longrightarrow> sub_runs N s = ''_''"
proof (cases s)
  case Nil
  assume "s \<noteq> []" with Nil show ?thesis by simp
next
  case (Cons c cs)
  assume "\<forall>c \<in> set s. N c"
  with Cons have c: "N c" and dw: "dropWhile N cs = []" by auto
  show ?thesis unfolding Cons by (simp add: c dw)
qed

lemma rstrip_sub_runs:
  "\<forall>c \<in> set b. N c \<Longrightarrow>
   rev (dropWhile (\<lambda>c. c = CHR ''_'') (rev (sub_runs N (x @ b))))
     = rev (dropWhile (\<lambda>c. c = CHR ''_'') (rev (sub_runs N x)))"
proof (induction N x rule: sub_runs.induct)
  case (1 P)
  show ?case
  proof (cases "b = []")
    case True
    then show ?thesis by simp
  next
    case False
    from sub_runs_all [OF False 1] have "sub_runs P b = ''_''" .
    then show ?thesis by simp
  qed
next
  case (2 P c cs)
  show ?case
  proof (cases "P c")
    case True
    show ?thesis
    proof (cases "\<forall>x \<in> set cs. P x")
      case True
      with "2.prems" have d1: "dropWhile P (cs @ b) = []" and d2: "dropWhile P cs = []" by auto
      from \<open>P c\<close> show ?thesis by (simp add: d1 d2)
    next
      case False
      then have d: "dropWhile P (cs @ b) = dropWhile P cs @ b" by (auto simp: dropWhile_append)
      from "2.IH"(1) [OF \<open>P c\<close> "2.prems"] \<open>P c\<close> show ?thesis
        by (simp only: append_Cons sub_runs.simps if_True rstrip_Cons d)
    qed
  next
    case False
    from "2.IH"(2) [OF False "2.prems"] False show ?thesis
      by (simp only: append_Cons sub_runs.simps if_False rstrip_Cons)
  qed
qed

lemma strip_sub_runs_padded:
  assumes us: "N (CHR ''_'')" and a: "\<forall>c \<in> set a. N c" and b: "\<forall>c \<in> set b. N c"
  shows "strip_by (\<lambda>c. c = CHR ''_'') (sub_runs N (a @ x @ b))
           = strip_by (\<lambda>c. c = CHR ''_'') (sub_runs N x)"
proof -
  have da: "dropWhile N (a @ x @ b) = dropWhile N (x @ b)"
    using a by (simp add: dropWhile_append)
  show ?thesis
  proof (cases "\<forall>c \<in> set x. N c")
    case True
    with b have d1: "dropWhile N (x @ b) = []" and d2: "dropWhile N x = []" by auto
    show ?thesis by (simp add: strip_by_def lstrip_sub_runs us da d1 d2)
  next
    case False
    then have d: "dropWhile N (x @ b) = dropWhile N x @ b" by (auto simp: dropWhile_append)
    show ?thesis
      by (simp add: strip_by_def lstrip_sub_runs us da d rstrip_sub_runs b)
  qed
qed

lemma strip_by_decompose:
  "\<exists>a b. s = a @ strip_by P s @ b \<and> (\<forall>c \<in> set a. P c) \<and> (\<forall>c \<in> set b. P c)"
proof -
  let ?u = "dropWhile P s"
  have 1: "s = takeWhile P s @ ?u" by simp
  have 2: "?u = strip_by P s @ rev (takeWhile P (rev ?u))"
    unfolding strip_by_def by (metis rev_append rev_rev_ident takeWhile_dropWhile_id)
  have 3: "\<forall>c \<in> set (takeWhile P s). P c" by (auto dest: set_takeWhileD)
  have 4: "\<forall>c \<in> set (rev (takeWhile P (rev ?u))). P c" by (auto dest: set_takeWhileD)
  from 1 2 have "s = takeWhile P s @ strip_by P s @ rev (takeWhile P (rev ?u))" by simp
  with 3 4 show ?thesis by blast
qed

lemma collapse_sub_runs:
  "collapse False s = sub_runs (\<lambda>c. \<not> is_lower_alnum c) s \<and>
   collapse True s = sub_runs (\<lambda>c. \<not> is_lower_alnum c) (dropWhile (\<lambda>c. \<not> is_lower_alnum c) s)"
  by (induction s) simp_all

lemma sub_runs_chars:
  "c \<in> set (sub_runs N s) \<Longrightarrow> \<not> N c \<or> c = CHR ''_''"
proof (induction N s rule: sub_runs.induct)
  case (1 P)
  then show ?case by simp
next
  case (2 P x xs)
  then show ?case by (cases "P x") auto
qed

lemma strip_by_subset: "set (strip_by P s) \<subseteq> set s"
proof -
  have "set (strip_by P s) \<subseteq> set (dropWhile P s)"
    unfolding strip_by_def using set_dropWhileD [of _ P "rev (dropWhile P s)"] by auto
  also have "\<dots> \<subseteq> set s" using set_dropWhileD [of _ P s] by auto
  finally show ?thesis .
qed

lemma sanitize_core:
  "strip_by (\<lambda>c. c = CHR ''_'')
       (sub_runs (\<lambda>c. c = CHR ''_'')
          (sub_runs (\<lambda>c. \<not> is_lower_alnum c) (map py_lower (py_strip text))))
     = trim_underscores (collapse False (map py_lower text))"
proof -
  let ?N = "\<lambda>c. \<not> is_lower_alnum c"
  from strip_by_decompose [of "text" py_isspace] obtain a b where
    ab: "text = a @ py_strip text @ b" "\<forall>c \<in> set a. py_isspace c" "\<forall>c \<in> set b. py_isspace c"
    unfolding py_strip_def by blast
  have us: "?N (CHR ''_'')" by (rule not_alnum_underscore)
  have na: "\<forall>c \<in> set (map py_lower a). ?N c" using ab(2) by (auto dest: space_not_alnum)
  have nb: "\<forall>c \<in> set (map py_lower b). ?N c" using ab(3) by (auto dest: space_not_alnum)
  have "map py_lower text = map py_lower a @ map py_lower (py_strip text) @ map py_lower b"
    by (subst ab(1)) simp
  then have "trim_underscores (collapse False (map py_lower text))
      = strip_by (\<lambda>c. c = CHR ''_'')
          (sub_runs ?N (map py_lower a @ map py_lower (py_strip text) @ map py_lower b))"
    by (simp add: trim_underscores_def strip_by_def collapse_sub_runs)
  also have "\<dots> = strip_by (\<lambda>c. c = CHR ''_'') (sub_runs ?N (map py_lower (py_strip text)))"
    using us na nb by (rule strip_sub_runs_padded)
  finally show ?thesis
    using sub_runs_idem [where N = ?N, OF us] by simp
qed

text \<open>
  Claim C5. \<open>sanitize_caption\<close> computes what the specification describes: the text in
  lower case, every run of characters other than \<open>a-z0-9\<close> replaced by one underscore,
  the underscores at both ends trimmed, and \<open>image\<close> when nothing is left (the source's
  initial \<open>strip()\<close> and second substitution change nothing). The result is never empty
  and holds only \<open>a-z\<close>, \<open>0-9\<close> and underscores. The caption
  \<open>"  A Walk On The Beach!! "\<close> gives \<open>a_walk_on_the_beach\<close>.
\<close>
theorem sanitize_caption_refines:
  "sanitize_caption text = sanitize_spec text \<and>
   sanitize_caption text \<noteq> [] \<and>
   (\<forall>c \<in> set (sanitize_caption text). is_lower_alnum c \<or> c = CHR ''_'') \<and>
   sanitize_caption ''  A Walk On The Beach!! '' = ''a_walk_on_the_beach'' \<and>
   sanitize_caption ''?!'' = ''image''"
proof (intro conjI ballI)
  show eq: "sanitize_caption text = sanitize_spec text"
    by (simp add: sanitize_caption_def sanitize_spec_def sanitize_core Let_def)
  show "sanitize_caption text \<noteq> []"
    by (simp add: sanitize_caption_def Let_def)
  show "sanitize_caption ''  A Walk On The Beach!! '' = ''a_walk_on_the_beach''" by code_simp
  show "sanitize_caption ''?!'' = ''image''" by code_simp
next
  fix c assume c: "c \<in> set (sanitize_caption text)"
  let ?t = "strip_by (\<lambda>c. c = CHR ''_'')
       (sub_runs (\<lambda>c. c = CHR ''_'')
          (sub_runs (\<lambda>c. \<not> is_lower_alnum c) (map py_lower (py_strip text))))"
  show "is_lower_alnum c \<or> c = CHR ''_''"
  proof (cases "?t = []")
    case True
    with c have "c \<in> set ''image''" by (simp add: sanitize_caption_def Let_def)
    then show ?thesis by (auto simp: is_lower_alnum_def)
  next
    case False
    with c have "c \<in> set ?t" by (simp add: sanitize_caption_def Let_def)
    with strip_by_subset have "c \<in> set (sub_runs (\<lambda>c. c = CHR ''_'')
          (sub_runs (\<lambda>c. \<not> is_lower_alnum c) (map py_lower (py_strip text))))" by blast
    then have "c \<noteq> CHR ''_'' \<longrightarrow> c \<in> set (sub_runs (\<lambda>c. \<not> is_lower_alnum c) (map py_lower (py_strip text)))"
      using sub_runs_idem [where N = "\<lambda>c. \<not> is_lower_alnum c", OF not_alnum_underscore] by simp
    then show ?thesis using sub_runs_chars [of c "\<lambda>c. \<not> is_lower_alnum c"] by blast
  qed
qed

theorem sanitize_caption_refines_witness:
  "sanitize_caption ''Sunset over Ubud, Bali (2023)'' = ''sunset_over_ubud_bali_2023'' \<and>
   sanitize_spec ''Sunset over Ubud, Bali (2023)'' = ''sunset_over_ubud_bali_2023''"
proof -
  have "sanitize_spec ''Sunset over Ubud, Bali (2023)'' = ''sunset_over_ubud_bali_2023''"
    by code_simp
  with sanitize_caption_refines [of "''Sunset over Ubud, Bali (2023)''"] show ?thesis by simp
qed

subsection \<open>Unique destination and the main loop\<close>

lemma probe_spec:
  "\<exists>k. i \<le> k \<and> probe d base ext i = candidate base ext k
       \<and> \<not> path_exists d (candidate base ext k)
       \<and> (\<forall>j. i \<le> j \<and> j < k \<longrightarrow> path_exists d (candidate base ext j))"
proof (induction d base ext i rule: probe.induct)
  case (1 d base ext i)
  show ?case
  proof (cases "path_exists d (candidate base ext i)")
    case False
    then have "probe d base ext i = candidate base ext i"
      by (subst probe.simps) simp
    with False show ?thesis by (intro exI [of _ i]) auto
  next
    case True
    then have eq: "probe d base ext i = probe d base ext (i + 1)"
      by (subst probe.simps) simp
    from 1 True obtain k where k: "i + 1 \<le> k"
      "probe d base ext (i + 1) = candidate base ext k"
      "\<not> path_exists d (candidate base ext k)"
      "\<forall>j. i + 1 \<le> j \<and> j < k \<longrightarrow> path_exists d (candidate base ext j)"
      by blast
    have "\<forall>j. i \<le> j \<and> j < k \<longrightarrow> path_exists d (candidate base ext j)"
    proof (intro allI impI)
      fix j assume "i \<le> j \<and> j < k"
      then have "j = i \<or> (i + 1 \<le> j \<and> j < k)" by arith
      with True k(4) show "path_exists d (candidate base ext j)" by blast
    qed
    with k eq show ?thesis by (intro exI [of _ k]) simp
  qed
qed

lemma fmt_02d_2: "fmt_02d 2 = ''02''"
  by code_simp

lemma fmt_02d_3: "fmt_02d 3 = ''03''"
  by code_simp

lemma candidate_2: "candidate base ext 2 = base @ ''_02'' @ ext"
  by (simp add: candidate_def fmt_02d_2)

lemma candidate_3: "candidate base ext 3 = base @ ''_03'' @ ext"
  by (simp add: candidate_def fmt_02d_3)

lemma unique_path_fresh: "\<not> path_exists d (unique_path d base ext)"
proof (cases "path_exists d (base @ ext)")
  case False
  then show ?thesis by (simp add: unique_path_def)
next
  case True
  from probe_spec [of 2 d base ext] obtain k where
    "probe d base ext 2 = candidate base ext k" "\<not> path_exists d (candidate base ext k)"
    by blast
  with True show ?thesis by (simp add: unique_path_def)
qed

text \<open>
  Claim C6. \<open>unique_path\<close> returns \<open>base.ext\<close> when that name is unused. Otherwise it
  returns the first unused name among \<open>base_02.ext\<close>, \<open>base_03.ext\<close>, ... (the counter
  written with at least two digits): every candidate with a smaller counter exists. The
  probing loop is total because the folder is finite. With \<open>photo.jpg\<close> and
  \<open>photo_02.jpg\<close> present the result is \<open>photo_03.jpg\<close>.
\<close>
theorem unique_path_probing:
  "(\<not> path_exists d (base @ ext) \<longrightarrow> unique_path d base ext = base @ ext) \<and>
   (path_exists d (base @ ext) \<longrightarrow>
      (\<exists>k. 2 \<le> k \<and> unique_path d base ext = base @ ''_'' @ fmt_02d k @ ext
          \<and> \<not> path_exists d (base @ ''_'' @ fmt_02d k @ ext)
          \<and> (\<forall>j. 2 \<le> j \<and> j < k \<longrightarrow> path_exists d (base @ ''_'' @ fmt_02d j @ ext)))) \<and>
   fmt_02d 2 = ''02'' \<and> fmt_02d 3 = ''03'' \<and>
   unique_path [(''photo.jpg'', File bytes1), (''photo_02.jpg'', File bytes2)] ''photo'' ''.jpg''
     = ''photo_03.jpg''"
proof (intro conjI impI)
  assume "\<not> path_exists d (base @ ext)"
  then show "unique_path d base ext = base @ ext" by (simp add: unique_path_def)
next
  assume ex: "path_exists d (base @ ext)"
  from probe_spec [of 2 d base ext] obtain k where k: "2 \<le> k"
    "probe d base ext 2 = candidate base ext k"
    "\<not> path_exists d (candidate base ext k)"
    "\<forall>j. 2 \<le> j \<and> j < k \<longrightarrow> path_exists d (candidate base ext j)"
    by blast
  from ex k(2) have "unique_path d base ext = candidate base ext k"
    by (simp add: unique_path_def)
  with k show "\<exists>k. 2 \<le> k \<and> unique_path d base ext = base @ ''_'' @ fmt_02d k @ ext
          \<and> \<not> path_exists d (base @ ''_'' @ fmt_02d k @ ext)
          \<and> (\<forall>j. 2 \<le> j \<and> j < k \<longrightarrow> path_exists d (base @ ''_'' @ fmt_02d j @ ext))"
    unfolding candidate_def by (intro exI [of _ k]) simp
next
  show "fmt_02d 2 = ''02''" by (rule fmt_02d_2)
  show "fmt_02d 3 = ''03''" by (rule fmt_02d_3)
next
  let ?d = "[(''photo.jpg'', File bytes1), (''photo_02.jpg'', File bytes2)]"
  have a: "path_exists ?d (''photo'' @ ''.jpg'')" by (simp add: path_exists_def)
  have b: "path_exists ?d (candidate ''photo'' ''.jpg'' 2)"
    by (simp add: path_exists_def candidate_2)
  have c: "\<not> path_exists ?d (candidate ''photo'' ''.jpg'' 3)"
    by (simp add: path_exists_def candidate_3)
  have "probe ?d ''photo'' ''.jpg'' 2 = probe ?d ''photo'' ''.jpg'' 3"
    using b by (subst probe.simps) simp
  also have "\<dots> = candidate ''photo'' ''.jpg'' 3"
    using c by (subst probe.simps) simp
  finally show "unique_path ?d ''photo'' ''.jpg'' = ''photo_03.jpg''"
    using a by (simp add: unique_path_def candidate_3)
qed

theorem unique_path_probing_witness:
  "unique_path [(''b.png'', Dir)] ''a'' ''.png'' = ''a.png'' \<and>
   (\<exists>k. 2 \<le> k \<and> unique_path [(''a.png'', Dir)] ''a'' ''.png'' = ''a'' @ ''_'' @ fmt_02d k @ ''.png'')"
proof -
  have a: "\<not> path_exists [(''b.png'', Dir)] (''a'' @ ''.png'')" by (simp add: path_exists_def)
  have b: "path_exists [(''a.png'', Dir)] (''a'' @ ''.png'')" by (simp add: path_exists_def)
  from unique_path_probing [of "[(''b.png'', Dir)]" "''a''" "''.png''"] a
  have 1: "unique_path [(''b.png'', Dir)] ''a'' ''.png'' = ''a.png''" by simp
  from unique_path_probing [of "[(''a.png'', Dir)]" "''a''" "''.png''"] b
  have 2: "\<exists>k. 2 \<le> k \<and> unique_path [(''a.png'', Dir)] ''a'' ''.png'' = ''a'' @ ''_'' @ fmt_02d k @ ''.png''"
    by blast
  from 1 2 show ?thesis by blast
qed

lemma map_of_filter_ne:
  "map_of (filter (\<lambda>(k, v). k \<noteq> a \<and> k \<noteq> b) d) m = (if m = a \<or> m = b then None else map_of d m)"
  by (induction d) auto

lemma map_of_rename_other:
  "m \<noteq> src \<Longrightarrow> m \<noteq> dst \<Longrightarrow> map_of (rename d src dst) m = map_of d m"
  by (simp add: rename_def map_of_filter_ne split: option.splits)

lemma image_ext_cong:
  "map_of d name = map_of d' name \<Longrightarrow> image_ext d name = image_ext d' name"
  by (simp add: image_ext_def isfile_def)

lemma file_bytes_cong:
  "map_of d name = map_of d' name \<Longrightarrow> file_bytes d name = file_bytes d' name"
  by (simp add: file_bytes_def)

lemma image_ext_isfile: "image_ext d name = Some ext \<Longrightarrow> isfile d name"
  by (auto simp: image_ext_def Let_def split: if_splits)

lemma isfile_exists: "isfile d name \<Longrightarrow> path_exists d name"
  by (auto simp: isfile_def path_exists_def split: option.splits)

lemma unique_path_not_source:
  "path_exists d name \<Longrightarrow> unique_path d base ext \<noteq> name"
  using unique_path_fresh [of d base ext] by auto

text \<open>The loop body on an existing source: the skip branch is not taken.\<close>

lemma loop_body_existing:
  assumes "path_exists (files st) name"
  shows "loop_body dry svc name bytes ext st =
     (case caption_image svc name bytes of
        Inl exc \<Rightarrow> st\<lparr>err := err st @ [''ERROR: '' @ name @ '': '' @ exc]\<rparr>
      | Inr caption \<Rightarrow>
          if dry
          then st\<lparr>out := out st @ [''DRY: '' @ name @ '' -> ''
                                   @ unique_path (files st) (sanitize_caption caption) ext]\<rparr>
          else st\<lparr>files := rename (files st) name
                               (unique_path (files st) (sanitize_caption caption) ext),
                   out := out st @ [''REN: '' @ name @ '' -> ''
                                   @ unique_path (files st) (sanitize_caption caption) ext]\<rparr>)"
  using unique_path_not_source [OF assms]
  by (simp add: loop_body_def Let_def split: sum.splits)

lemma rename_loop_Cons_step:
  "rename_loop dry svc (name # names) st = rename_loop dry svc names (loop_step dry svc name st)"
  by simp

lemma rename_loop_append:
  "rename_loop dry svc (xs @ ys) st = rename_loop dry svc ys (rename_loop dry svc xs st)"
  by (induction xs arbitrary: st) simp_all

lemma step_files:
  "files (loop_step dry svc name st) = files st \<or>
   (\<not> dry \<and> (\<exists>new. \<not> path_exists (files st) new
        \<and> files (loop_step dry svc name st) = rename (files st) name new))"
proof (cases "image_ext (files st) name")
  case None
  then show ?thesis by (simp add: loop_step_def)
next
  case (Some ext)
  then have ex: "path_exists (files st) name"
    by (intro isfile_exists image_ext_isfile)
  show ?thesis
    using unique_path_fresh [of "files st"]
    by (auto simp: loop_step_def Some loop_body_existing [OF ex] split: sum.splits)
qed

lemma step_out:
  "out (loop_step dry svc name st) = out st \<or>
   (\<exists>new. out (loop_step dry svc name st)
        = out st @ [(if dry then ''DRY: '' else ''REN: '') @ name @ '' -> '' @ new])"
proof (cases "image_ext (files st) name")
  case None
  then show ?thesis by (simp add: loop_step_def)
next
  case (Some ext)
  then have ex: "path_exists (files st) name"
    by (intro isfile_exists image_ext_isfile)
  show ?thesis
    by (auto simp: loop_step_def Some loop_body_existing [OF ex] split: sum.splits)
qed

lemma startswith_append: "startswith (p @ s) p"
  by (induction p) simp_all

lemma rename_loop_out:
  "\<exists>new. out (rename_loop dry svc names st) = out st @ new
      \<and> (\<forall>l \<in> set new. startswith l (if dry then ''DRY: '' else ''REN: ''))"
proof (induction names arbitrary: st)
  case Nil
  show ?case by simp
next
  case (Cons name names)
  from Cons [of "loop_step dry svc name st"] obtain new where
    new: "out (rename_loop dry svc names (loop_step dry svc name st)) = out (loop_step dry svc name st) @ new"
         "\<forall>l \<in> set new. startswith l (if dry then ''DRY: '' else ''REN: '')"
    by blast
  from step_out [of dry svc name st] show ?case
  proof
    assume "out (loop_step dry svc name st) = out st"
    with new show ?thesis by (simp only: rename_loop_Cons_step) auto
  next
    assume "\<exists>n. out (loop_step dry svc name st)
        = out st @ [(if dry then ''DRY: '' else ''REN: '') @ name @ '' -> '' @ n]"
    then obtain n where n: "out (loop_step dry svc name st)
        = out st @ [(if dry then ''DRY: '' else ''REN: '') @ name @ '' -> '' @ n]" by blast
    have "startswith ((if dry then ''DRY: '' else ''REN: '') @ name @ '' -> '' @ n)
            (if dry then ''DRY: '' else ''REN: '')"
      by (rule startswith_append)
    with new n show ?thesis
      by (simp only: rename_loop_Cons_step)
         (intro exI [of _ "((if dry then ''DRY: '' else ''REN: '') @ name @ '' -> '' @ n) # new"], auto)
  qed
qed

lemma rename_loop_dry_files: "files (rename_loop True svc names st) = files st"
proof (induction names arbitrary: st)
  case Nil
  show ?case by simp
next
  case (Cons name names)
  from step_files [of True svc name st] have "files (loop_step True svc name st) = files st" by simp
  with Cons [of "loop_step True svc name st"] show ?case
    by (simp only: rename_loop_Cons_step)
qed


lemma main_stops:
  "key = None \<or> key = Some [] \<or> folder = None \<Longrightarrow>
   stdout_lines (main args svc key folder) = [] \<and> exit_code (main args svc key folder) = 1
   \<and> folder_after (main args svc key folder) = folder"
  by (cases key; cases folder) (auto simp: main_def)

lemma main_runs:
  "k \<noteq> [] \<Longrightarrow>
   main args svc (Some k) (Some d) =
     \<lparr>exit_code = 0,
      stdout_lines = out (rename_loop (dry_run args) svc (sort (listdir d))
                           \<lparr>files = d, out = [], err = []\<rparr>),
      stderr_lines = err (rename_loop (dry_run args) svc (sort (listdir d))
                           \<lparr>files = d, out = [], err = []\<rparr>),
      folder_after = Some (files (rename_loop (dry_run args) svc (sort (listdir d))
                           \<lparr>files = d, out = [], err = []\<rparr>))\<rparr>"
  by (simp add: main_def Let_def)

text \<open>
  Claim C10. \<open>unique_path\<close> never returns a name that exists, hence never the name of
  an existing source file; so the loop body never takes the branch that reports the file
  as unchanged, and no run of \<open>main\<close> prints a \<open>SKIP\<close> line. A file already named by
  its sanitized caption and extension is renamed to the \<open>_02\<close> variant when that name is free.
\<close>
theorem unique_path_never_existing:
  "\<not> path_exists d (unique_path d base ext) \<and>
   (path_exists d name \<longrightarrow> unique_path d base ext \<noteq> name) \<and>
   (path_exists (files st) name \<and> caption_image svc name bytes = Inr caption \<longrightarrow>
      loop_body dry svc name bytes ext st
        \<noteq> st\<lparr>out := out st @ [''SKIP: '' @ name @ '' (unchanged)'']\<rparr>) \<and>
   (path_exists (files st) name \<and> caption_image svc name bytes = Inr caption
      \<and> name = sanitize_caption caption @ ext
      \<and> \<not> path_exists (files st) (sanitize_caption caption @ ''_02'' @ ext) \<longrightarrow>
      loop_body False svc name bytes ext st
        = st\<lparr>files := rename (files st) name (sanitize_caption caption @ ''_02'' @ ext),
             out := out st @ [''REN: '' @ name @ '' -> ''
                               @ sanitize_caption caption @ ''_02'' @ ext]\<rparr>) \<and>
   (\<forall>l \<in> set (stdout_lines (main args svc key folder)). \<not> startswith l ''SKIP: '')"
proof (intro conjI impI ballI)
  show "\<not> path_exists d (unique_path d base ext)" by (rule unique_path_fresh)
next
  assume "path_exists d name"
  then show "unique_path d base ext \<noteq> name" by (rule unique_path_not_source)
next
  assume a: "path_exists (files st) name \<and> caption_image svc name bytes = Inr caption"
  then have ex: "path_exists (files st) name" by blast
  show "loop_body dry svc name bytes ext st
        \<noteq> st\<lparr>out := out st @ [''SKIP: '' @ name @ '' (unchanged)'']\<rparr>"
  proof
    assume eq: "loop_body dry svc name bytes ext st
        = st\<lparr>out := out st @ [''SKIP: '' @ name @ '' (unchanged)'']\<rparr>"
    then have "out (loop_body dry svc name bytes ext st)
        = out st @ [''SKIP: '' @ name @ '' (unchanged)'']" by simp
    with a show False
      by (simp add: loop_body_existing [OF ex] split: if_splits)
  qed
next
  assume a: "path_exists (files st) name \<and> caption_image svc name bytes = Inr caption
      \<and> name = sanitize_caption caption @ ext
      \<and> \<not> path_exists (files st) (sanitize_caption caption @ ''_02'' @ ext)"
  then have ex: "path_exists (files st) name" by blast
  let ?base = "sanitize_caption caption"
  from a have taken: "path_exists (files st) (?base @ ext)" by auto
  from a have free: "\<not> path_exists (files st) (candidate ?base ext 2)"
    by (auto simp: candidate_2)
  then have "probe (files st) ?base ext 2 = candidate ?base ext 2"
    by (subst probe.simps) simp
  with taken have up: "unique_path (files st) ?base ext = ?base @ ''_02'' @ ext"
    by (simp add: unique_path_def candidate_2)
  from a have cap: "caption_image svc name bytes = Inr caption" by blast
  have "loop_body False svc name bytes ext st
        = st\<lparr>files := rename (files st) name (unique_path (files st) ?base ext),
             out := out st @ [''REN: '' @ name @ '' -> '' @ unique_path (files st) ?base ext]\<rparr>"
    by (simp add: loop_body_existing [OF ex] cap)
  then show "loop_body False svc name bytes ext st
        = st\<lparr>files := rename (files st) name (?base @ ''_02'' @ ext),
             out := out st @ [''REN: '' @ name @ '' -> '' @ ?base @ ''_02'' @ ext]\<rparr>"
    by (simp only: up)
next
  fix l assume l: "l \<in> set (stdout_lines (main args svc key folder))"
  show "\<not> startswith l ''SKIP: ''"
  proof (cases "key = None \<or> key = Some [] \<or> folder = None")
    case True
    from main_stops [OF True] l show ?thesis by simp
  next
    case False
    then obtain k d where kd: "key = Some k" "k \<noteq> []" "folder = Some d" by auto
    from rename_loop_out [of "dry_run args" svc "sort (listdir d)" "\<lparr>files = d, out = [], err = []\<rparr>"]
    obtain new where new:
      "out (rename_loop (dry_run args) svc (sort (listdir d)) \<lparr>files = d, out = [], err = []\<rparr>) = new"
      "\<forall>l \<in> set new. startswith l (if dry_run args then ''DRY: '' else ''REN: '')"
      by auto
    from kd l new(1) have "l \<in> set new" by (simp add: main_runs)
    with new(2) have "startswith l (if dry_run args then ''DRY: '' else ''REN: '')" by blast
    then show ?thesis by (cases l) (auto split: if_splits)
  qed
qed

theorem unique_path_never_existing_witness:
  "\<not> path_exists [(''image.png'', File ''z'')]
       (unique_path [(''image.png'', File ''z'')] ''image'' ''.png'') \<and>
   unique_path [(''image.png'', File ''z'')] ''image'' ''.png'' \<noteq> ''image.png'' \<and>
   loop_body False (\<lambda>name bytes. Inr (Some ''Image!'')) ''image.png'' ''z'' ''.png''
       \<lparr>files = [(''image.png'', File ''z'')], out = [], err = []\<rparr>
     = \<lparr>files = [(''image_02.png'', File ''z'')],
        out = [''REN: image.png -> image_02.png''], err = []\<rparr>"
proof -
  let ?d = "[(''image.png'', File ''z'')]"
  let ?svc = "\<lambda>name bytes. Inr (Some ''Image!'') :: string + string option"
  let ?st = "\<lparr>files = ?d, out = [], err = []\<rparr>"
  have ex: "path_exists ?d ''image.png''" by (simp add: path_exists_def)
  have cap: "caption_image ?svc ''image.png'' ''z'' = Inr ''Image!''" by code_simp
  have san: "sanitize_caption ''Image!'' = ''image''" by code_simp
  have free: "\<not> path_exists ?d (''image'' @ ''_02'' @ ''.png'')" by (simp add: path_exists_def)
  have ren: "rename ?d ''image.png'' ''image_02.png'' = [(''image_02.png'', File ''z'')]"
    by (simp add: rename_def)
  from unique_path_never_existing [where d = ?d and base = "''image''" and ext = "''.png''"
      and name = "''image.png''" and st = ?st and svc = ?svc and bytes = "''z''"
      and caption = "''Image!''"]
    ex cap san free ren
  show ?thesis by simp
qed

text \<open>
  Claim C4. When the captioning call for a yielded file raises, the loop adds the line
  \<open>ERROR: name: message\<close> to the error stream, leaves the folder and the standard output
  as they are, and goes on with the remaining names; an exception of the service is
  such a failure, and \<open>main\<close> still returns 0.
\<close>
theorem caption_failure_isolated:
  "(image_ext (files (rename_loop dry svc earlier st)) name = Some ext \<and>
    caption_image svc name (file_bytes (files (rename_loop dry svc earlier st)) name) = Inl msg \<longrightarrow>
      rename_loop dry svc (earlier @ name # later) st
        = rename_loop dry svc later
            ((rename_loop dry svc earlier st)
               \<lparr>err := err (rename_loop dry svc earlier st) @ [''ERROR: '' @ name @ '': '' @ msg]\<rparr>)) \<and>
   (svc name bytes = Inl msg \<longrightarrow> caption_image svc name bytes = Inl msg) \<and>
   (k \<noteq> [] \<longrightarrow> exit_code (main args svc (Some k) (Some d)) = 0)"
proof (intro conjI impI)
  let ?st1 = "rename_loop dry svc earlier st"
  assume a: "image_ext (files ?st1) name = Some ext \<and>
    caption_image svc name (file_bytes (files ?st1) name) = Inl msg"
  then have "loop_step dry svc name ?st1 = ?st1\<lparr>err := err ?st1 @ [''ERROR: '' @ name @ '': '' @ msg]\<rparr>"
    by (simp add: loop_step_def loop_body_def)
  then show "rename_loop dry svc (earlier @ name # later) st
        = rename_loop dry svc later (?st1\<lparr>err := err ?st1 @ [''ERROR: '' @ name @ '': '' @ msg]\<rparr>)"
    by (simp only: rename_loop_append rename_loop_Cons_step)
next
  assume "svc name bytes = Inl msg"
  then show "caption_image svc name bytes = Inl msg" by (simp add: caption_image_def)
next
  assume "k \<noteq> []"
  then show "exit_code (main args svc (Some k) (Some d)) = 0" by (simp add: main_runs)
qed

theorem caption_failure_isolated_witness:
  "rename_loop False (\<lambda>name bytes. if name = ''a.png'' then Inl ''boom'' else Inr (Some ''Sea view''))
       ([] @ ''a.png'' # [''b.png''])
       \<lparr>files = [(''a.png'', File ''x''), (''b.png'', File ''y'')], out = [], err = []\<rparr>
     = \<lparr>files = [(''sea_view.png'', File ''y''), (''a.png'', File ''x'')],
        out = [''REN: b.png -> sea_view.png''], err = [''ERROR: a.png: boom'']\<rparr>"
proof -
  let ?svc = "\<lambda>name bytes. if name = ''a.png'' then Inl ''boom'' else Inr (Some ''Sea view'')
                :: string + string option"
  let ?st = "\<lparr>files = [(''a.png'', File ''x''), (''b.png'', File ''y'')], out = [], err = []\<rparr>"
  have a: "image_ext (files (rename_loop False ?svc [] ?st)) ''a.png'' = Some ''.png''"
    by code_simp
  have b: "caption_image ?svc ''a.png'' (file_bytes (files (rename_loop False ?svc [] ?st)) ''a.png'')
             = Inl ''boom''"
    by code_simp
  have c: "rename_loop False ?svc [''b.png'']
             (?st\<lparr>err := err ?st @ [''ERROR: '' @ ''a.png'' @ '': '' @ ''boom'']\<rparr>)
           = \<lparr>files = [(''sea_view.png'', File ''y''), (''a.png'', File ''x'')],
              out = [''REN: b.png -> sea_view.png''], err = [''ERROR: a.png: boom'']\<rparr>"
    by code_simp
  from caption_failure_isolated [where dry = False and svc = ?svc and earlier = "[]" and st = ?st
      and name = "''a.png''" and ext = "''.png''" and msg = "''boom''" and later = "[''b.png'']"]
    a b c
  show ?thesis by simp
qed

text \<open>
  Claim C8. In dry-run mode the loop never changes the folder: after \<open>main\<close> the folder
  is the one it started from, and every line on the standard output is a \<open>DRY\<close> report.
\<close>
theorem dry_run_no_mutation:
  "files (rename_loop True svc names st) = files st \<and>
   (dry_run args \<longrightarrow>
      folder_after (main args svc key folder) = folder \<and>
      (\<forall>l \<in> set (stdout_lines (main args svc key folder)). startswith l ''DRY: ''))"
proof (intro conjI impI ballI)
  show "files (rename_loop True svc names st) = files st" by (rule rename_loop_dry_files)
next
  assume dry: "dry_run args"
  show "folder_after (main args svc key folder) = folder"
  proof (cases "key = None \<or> key = Some [] \<or> folder = None")
    case True
    from main_stops [OF True] show ?thesis by simp
  next
    case False
    then obtain k d where kd: "key = Some k" "k \<noteq> []" "folder = Some d" by auto
    with dry show ?thesis by (simp add: main_runs rename_loop_dry_files)
  qed
next
  fix l assume dry: "dry_run args" and l: "l \<in> set (stdout_lines (main args svc key folder))"
  show "startswith l ''DRY: ''"
  proof (cases "key = None \<or> key = Some [] \<or> folder = None")
    case True
    from main_stops [OF True] l show ?thesis by simp
  next
    case False
    then obtain k d where kd: "key = Some k" "k \<noteq> []" "folder = Some d" by auto
    from rename_loop_out [of True svc "sort (listdir d)" "\<lparr>files = d, out = [], err = []\<rparr>"]
    obtain new where new:
      "out (rename_loop True svc (sort (listdir d)) \<lparr>files = d, out = [], err = []\<rparr>) = new"
      "\<forall>l \<in> set new. startswith l ''DRY: ''"
      by auto
    from kd l dry new(1) have "l \<in> set new" by (simp add: main_runs)
    with new(2) show ?thesis by blast
  qed
qed

theorem dry_run_no_mutation_witness:
  "folder_after (main \<lparr>dir_arg = ''photos'', env_var_arg = ''OPENAI_API_KEY'', dry_run = True\<rparr>
       (\<lambda>name bytes. Inr (Some ''Sea view'')) (Some ''key'') (Some [(''a.png'', File ''x'')]))
     = Some [(''a.png'', File ''x'')] \<and>
   stdout_lines (main \<lparr>dir_arg = ''photos'', env_var_arg = ''OPENAI_API_KEY'', dry_run = True\<rparr>
       (\<lambda>name bytes. Inr (Some ''Sea view'')) (Some ''key'') (Some [(''a.png'', File ''x'')]))
     = [''DRY: a.png -> sea_view.png'']"
proof -
  let ?args = "\<lparr>dir_arg = ''photos'', env_var_arg = ''OPENAI_API_KEY'', dry_run = True\<rparr>"
  let ?svc = "\<lambda>name bytes. Inr (Some ''Sea view'') :: string + string option"
  have dry: "dry_run ?args" by simp
  have out: "stdout_lines (main ?args ?svc (Some ''key'') (Some [(''a.png'', File ''x'')]))
     = [''DRY: a.png -> sea_view.png'']" by code_simp
  from dry_run_no_mutation [where args = ?args and svc = ?svc and key = "Some ''key''"
      and folder = "Some [(''a.png'', File ''x'')]"] dry out
  show ?thesis by simp
qed

lemma step_keeps_others:
  assumes "m \<noteq> name" "path_exists (files st) m"
  shows "map_of (files (loop_step dry svc name st)) m = map_of (files st) m"
proof -
  from step_files [of dry svc name st] show ?thesis
  proof
    assume "files (loop_step dry svc name st) = files st"
    then show ?thesis by simp
  next
    assume "\<not> dry \<and> (\<exists>new. \<not> path_exists (files st) new
        \<and> files (loop_step dry svc name st) = rename (files st) name new)"
    then obtain new where new: "\<not> path_exists (files st) new"
      "files (loop_step dry svc name st) = rename (files st) name new" by blast
    from new(1) assms(2) have "m \<noteq> new" by auto
    with assms(1) new(2) show ?thesis by (simp add: map_of_rename_other)
  qed
qed

lemma rename_loop_eager:
  assumes "distinct names"
      and "\<forall>n \<in> set names. map_of (files st) n = map_of d n"
      and "\<forall>n \<in> set names. path_exists d n"
  shows "rename_loop dry svc names st
     = foldl (\<lambda>s (name, ext). loop_body dry svc name (file_bytes d name) ext s) st
         (List.map_filter (\<lambda>name. map_option (\<lambda>ext. (name, ext)) (image_ext d name)) names)"
  using assms
proof (induction names arbitrary: st)
  case Nil
  show ?case by (simp add: map_filter_simps)
next
  case (Cons name names)
  let ?st' = "loop_step dry svc name st"
  from Cons.prems have same: "map_of (files st) name = map_of d name" by simp
  have inv: "\<forall>n \<in> set names. map_of (files ?st') n = map_of d n"
  proof
    fix n assume n: "n \<in> set names"
    with Cons.prems have "n \<noteq> name" "map_of (files st) n = map_of d n" "path_exists d n"
      by auto
    then have "path_exists (files st) n" by (simp add: path_exists_def)
    with \<open>n \<noteq> name\<close> have "map_of (files ?st') n = map_of (files st) n"
      by (rule step_keeps_others)
    with \<open>map_of (files st) n = map_of d n\<close> show "map_of (files ?st') n = map_of d n" by simp
  qed
  from Cons.prems have dn: "distinct names" and en: "\<forall>n \<in> set names. path_exists d n"
    by simp_all
  have ih: "rename_loop dry svc names ?st'
     = foldl (\<lambda>s (name, ext). loop_body dry svc name (file_bytes d name) ext s) ?st'
         (List.map_filter (\<lambda>name. map_option (\<lambda>ext. (name, ext)) (image_ext d name)) names)"
    by (rule Cons.IH [OF dn inv en])
  have st': "?st' = (case image_ext d name of None \<Rightarrow> st
                    | Some ext \<Rightarrow> loop_body dry svc name (file_bytes d name) ext st)"
    unfolding loop_step_def image_ext_cong [OF same] file_bytes_cong [OF same] by (rule refl)
  show ?case
    by (simp only: rename_loop_Cons_step ih) (simp add: st' map_filter_simps split: option.splits)
qed

lemma image_ext_Some_iff:
  "image_ext d name = Some ext \<longleftrightarrow>
     isfile d name \<and> \<not> startswith name ''.'' \<and> ext = map py_lower (splitext_ext name)
     \<and> ext \<in> IMAGE_EXTS"
  by (auto simp: image_ext_def Let_def)

lemma isfile_listed: "isfile d name \<Longrightarrow> name \<in> set (listdir d)"
proof -
  assume "isfile d name"
  then have "map_of d name \<noteq> None" by (auto simp: isfile_def split: option.splits)
  then show ?thesis by (simp add: listdir_def map_of_eq_None_iff)
qed

lemma listed_exists: "name \<in> set (listdir d) \<Longrightarrow> path_exists d name"
  by (simp add: listdir_def path_exists_def map_of_eq_None_iff)

lemma names_map_filter:
  "map fst (List.map_filter (\<lambda>name. map_option (\<lambda>ext. (name, ext)) (image_ext d name)) names)
     = filter (\<lambda>name. image_ext d name \<noteq> None) names"
  by (induction names) (auto simp: map_filter_simps split: option.splits)

lemma set_map_filter_iff:
  "y \<in> set (List.map_filter f xs) \<longleftrightarrow> (\<exists>x \<in> set xs. f x = Some y)"
  by (induction xs) (auto simp: map_filter_simps split: option.splits)

text \<open>
  Claim C9. The names the generator yields are in ascending order without repetition,
  and they are exactly the regular files whose name does not start with a dot and whose
  lower-cased extension is in \<open>IMAGE_EXTS\<close>. The lazy loop of \<open>main\<close> over the sorted
  listing runs the loop body on exactly these entries, in this order.
\<close>
theorem iter_images_enumeration:
  "sorted (map fst (iter_images d)) \<and> distinct (map fst (iter_images d)) \<and>
   set (iter_images d)
     = {(name, ext). isfile d name \<and> \<not> startswith name ''.''
          \<and> ext = map py_lower (splitext_ext name) \<and> ext \<in> IMAGE_EXTS} \<and>
   rename_loop dry svc (sort (listdir d)) \<lparr>files = d, out = lines, err = errors\<rparr>
     = foldl (\<lambda>s (name, ext). loop_body dry svc name (file_bytes d name) ext s)
         \<lparr>files = d, out = lines, err = errors\<rparr> (iter_images d)"
proof (intro conjI)
  show "sorted (map fst (iter_images d))"
    unfolding iter_images_def names_map_filter by (rule sorted_wrt_filter) simp
next
  show "distinct (map fst (iter_images d))"
    unfolding iter_images_def names_map_filter by (simp add: listdir_def)
next
  show "set (iter_images d)
     = {(name, ext). isfile d name \<and> \<not> startswith name ''.''
          \<and> ext = map py_lower (splitext_ext name) \<and> ext \<in> IMAGE_EXTS}"
    by (auto simp: iter_images_def set_map_filter_iff image_ext_Some_iff isfile_listed)
next
  have "distinct (sort (listdir d))" by (simp add: listdir_def)
  moreover have "\<forall>n \<in> set (sort (listdir d)).
      map_of (files \<lparr>files = d, out = lines, err = errors\<rparr>) n = map_of d n" by simp
  moreover have "\<forall>n \<in> set (sort (listdir d)). path_exists d n"
    by (simp add: listed_exists)
  ultimately show "rename_loop dry svc (sort (listdir d)) \<lparr>files = d, out = lines, err = errors\<rparr>
     = foldl (\<lambda>s (name, ext). loop_body dry svc name (file_bytes d name) ext s)
         \<lparr>files = d, out = lines, err = errors\<rparr> (iter_images d)"
    unfolding iter_images_def by (rule rename_loop_eager)
qed

theorem iter_images_enumeration_witness:
  "sorted (map fst (iter_images [(''b.JPG'', File ''x''), (''.h.jpg'', File ''''), (''a.png'', File ''y''),
       (''sub.jpg'', Dir), (''note.txt'', File '''')])) \<and>
   iter_images [(''b.JPG'', File ''x''), (''.h.jpg'', File ''''), (''a.png'', File ''y''),
       (''sub.jpg'', Dir), (''note.txt'', File '''')]
     = [(''a.png'', ''.png''), (''b.JPG'', ''.jpg'')]"
proof -
  let ?d = "[(''b.JPG'', File ''x''), (''.h.jpg'', File ''''), (''a.png'', File ''y''),
       (''sub.jpg'', Dir), (''note.txt'', File '''')]"
  have v: "iter_images ?d = [(''a.png'', ''.png''), (''b.JPG'', ''.jpg'')]" by code_simp
  from iter_images_enumeration [where d = ?d] have "sorted (map fst (iter_images ?d))" by blast
  with v show ?thesis by blast
qed

end
